theory Spec2Isabelle
  imports Complex_Main "HOL-Library.DAList" "HOL-Library.Log_Nat"
begin

section \<open>Python values used by the collector\<close>

subsection \<open>Strings\<close>

text \<open>
  A Python \<open>str\<close> is a sequence of Unicode code points, so it is modelled as a list of
  code points. \<open>isspace\<close> is the table behind \<open>str.isspace\<close> and the argument-less
  \<open>str.strip\<close> of CPython: U+0009..U+000D, U+001C..U+0020, U+0085, U+00A0, U+1680,
  U+2000..U+200A, U+2028, U+2029, U+202F, U+205F and U+3000.
\<close>

type_synonym pystr = "nat list"

definition isspace :: "nat \<Rightarrow> bool" where
  "isspace c \<longleftrightarrow>
     (9 \<le> c \<and> c \<le> 13) \<or> (28 \<le> c \<and> c \<le> 32) \<or> c = 133 \<or> c = 160 \<or> c = 5760 \<or>
     (8192 \<le> c \<and> c \<le> 8202) \<or> c = 8232 \<or> c = 8233 \<or> c = 8239 \<or> c = 8287 \<or> c = 12288"

definition strip :: "pystr \<Rightarrow> pystr" where
  "strip v = rev (dropWhile isspace (rev (dropWhile isspace v)))"

text \<open>The expression \<open>x or ""\<close> for \<open>x: str | None\<close>: a falsy \<open>x\<close> (None or the empty
  string) gives the empty string.\<close>

definition or_empty :: "pystr option \<Rightarrow> pystr" where
  "or_empty x = (case x of None \<Rightarrow> [] | Some s \<Rightarrow> if s = [] then [] else s)"

subsection \<open>Floats\<close>

text \<open>
  A Python \<open>float\<close> is a finite number, one of the two infinities, or a NaN. The code uses
  \<open>math.inf\<close> and \<open>-math.inf\<close> as sentinels, so the special values are part of the model.
  A finite float is represented by the real number it denotes; the comparisons are those of
  IEEE 754 (every comparison with a NaN is false, and the two zeros are equal), which are
  exact. The subtraction, which computes the cutoff of the window, is the binary64
  operation: the exact difference, rounded to the nearest binary64 number with ties to
  even, an infinity on overflow. Addition and division, which feed only \<open>sum\<close> and
  \<open>avg\<close>, are exact on the finite values, and so is the conversion of an int to a float:
  their rounding and overflow are not modelled, and the statements below that depend on
  this say so.
\<close>

datatype pyfloat = Fin real | PInf | NInf | NaN

fun flt :: "pyfloat \<Rightarrow> pyfloat \<Rightarrow> bool" where
  "flt NaN _ = False"
| "flt _ NaN = False"
| "flt (Fin a) (Fin b) = (a < b)"
| "flt (Fin a) PInf = True"
| "flt (Fin a) NInf = False"
| "flt PInf _ = False"
| "flt NInf NInf = False"
| "flt NInf _ = True"

definition fgt :: "pyfloat \<Rightarrow> pyfloat \<Rightarrow> bool" where
  "fgt a b = flt b a"

definition feq :: "pyfloat \<Rightarrow> pyfloat \<Rightarrow> bool" where
  "feq a b = (a \<noteq> NaN \<and> b \<noteq> NaN \<and> a = b)"

definition fne :: "pyfloat \<Rightarrow> pyfloat \<Rightarrow> bool" where
  "fne a b = (\<not> feq a b)"

definition fge :: "pyfloat \<Rightarrow> pyfloat \<Rightarrow> bool" where
  "fge a b = (flt b a \<or> feq a b)"

fun fneg :: "pyfloat \<Rightarrow> pyfloat" where
  "fneg (Fin a) = Fin (- a)"
| "fneg PInf = NInf"
| "fneg NInf = PInf"
| "fneg NaN = NaN"

fun fadd :: "pyfloat \<Rightarrow> pyfloat \<Rightarrow> pyfloat" where
  "fadd NaN _ = NaN"
| "fadd _ NaN = NaN"
| "fadd (Fin a) (Fin b) = Fin (a + b)"
| "fadd (Fin a) PInf = PInf"
| "fadd (Fin a) NInf = NInf"
| "fadd PInf NInf = NaN"
| "fadd PInf _ = PInf"
| "fadd NInf PInf = NaN"
| "fadd NInf _ = NInf"

text \<open>
  Rounding to binary64. \<open>binexp r\<close> is the binary exponent of a real \<open>r\<close> other than
  zero, the \<open>e\<close> with \<open>2 ^ e \<le> |r| < 2 ^ (e + 1)\<close>. A binary64 number with exponent
  \<open>e\<close> is a multiple of \<open>2 ^ (e - 52)\<close>, its unit in the last place; below the normal
  range the exponent is held at \<open>-1022\<close>, which gives the subnormal numbers. \<open>round64\<close>
  rounds \<open>r\<close> to the nearest multiple of its unit, to the even one of two that are
  equally near, and to an infinity when the rounded number reaches \<open>2 ^ 1024\<close>.
\<close>

definition binexp :: "real \<Rightarrow> int" where
  "binexp r =
     (if 1 \<le> \<bar>r\<bar> then bitlen \<lfloor>\<bar>r\<bar>\<rfloor> - 1 else - bitlen (\<lceil>1 / \<bar>r\<bar>\<rceil> - 1))"

definition round_half_even :: "real \<Rightarrow> int" where
  "round_half_even q =
     (let f = \<lfloor>q\<rfloor>; d = q - of_int f
      in if d < 1 / 2 then f
         else if 1 / 2 < d then f + 1
         else if even f then f else f + 1)"

definition round64 :: "real \<Rightarrow> pyfloat" where
  "round64 r =
     (if r = 0 then Fin 0
      else
        (let e = max (binexp r) (- 1022);
             ulp = 2 powi (e - 52);
             y = of_int (round_half_even (r / ulp)) * ulp
         in if 1024 \<le> binexp y then (if 0 < r then PInf else NInf) else Fin y))"

text \<open>\<open>a - b\<close> for two floats: the rounded difference of two finite numbers; with an
  infinity or a NaN it is \<open>a + (-b)\<close>, which needs no rounding.\<close>

fun fsub :: "pyfloat \<Rightarrow> pyfloat \<Rightarrow> pyfloat" where
  "fsub (Fin a) (Fin b) = round64 (a - b)"
| "fsub a b = fadd a (fneg b)"

text \<open>\<open>x / n\<close> for a float \<open>x\<close> and an int \<open>n\<close>. Python raises ZeroDivisionError for
  \<open>n = 0\<close>, which is the result None here. The only division of the program is under
  the guard \<open>if n\<close>, where the result is \<open>Some\<close> quotient.\<close>

fun fdiv_int :: "pyfloat \<Rightarrow> int \<Rightarrow> pyfloat option" where
  "fdiv_int x n =
     (if n = 0 then None
      else Some (case x of
             Fin a \<Rightarrow> Fin (a / real_of_int n)
           | PInf \<Rightarrow> (if 0 < n then PInf else NInf)
           | NInf \<Rightarrow> (if 0 < n then NInf else PInf)
           | NaN \<Rightarrow> NaN))"

subsection \<open>Dictionaries and deques\<close>

text \<open>
  A Python dict keeps its keys distinct and in insertion order; assigning to a key that is
  present keeps its position. This is the type \<open>('k, 'v) alist\<close> with \<open>DAList.update\<close>.
  Reading \<open>d[k]\<close> from a \<open>defaultdict\<close> whose key is missing stores the default under
  \<open>k\<close> and returns it, so a read returns the dictionary as well.
\<close>

definition getitem :: "'v \<Rightarrow> ('k, 'v) alist \<Rightarrow> 'k \<Rightarrow> 'v \<times> ('k, 'v) alist" where
  "getitem dflt d k =
     (case DAList.lookup d k of
        Some v \<Rightarrow> (v, d)
      | None \<Rightarrow> (dflt, DAList.update k dflt d))"

text \<open>\<open>collections.deque(maxlen=m)\<close>: \<open>append\<close> adds on the right and, when the deque is
  then longer than \<open>maxlen\<close>, drops one element on the left.\<close>

record 'a deque =
  maxlen :: nat
  items :: "'a list"

definition new_deque :: "nat \<Rightarrow> 'a deque" where
  "new_deque m = \<lparr>maxlen = m, items = []\<rparr>"

definition deque_append :: "'a \<Rightarrow> 'a deque \<Rightarrow> 'a deque" where
  "deque_append x dq =
     (let xs = items dq @ [x]
      in dq\<lparr>items := (if maxlen dq < length xs then tl xs else xs)\<rparr>)"

section \<open>The in-memory store\<close>

text \<open>
  The label key is the tuple \<open>(event, service, status)\<close>. The store holds the six
  dictionaries of \<open>MetricsStore.__init__\<close>, the export window, and \<open>series_max\<close>, which
  the factory of \<open>_series\<close> captures. \<open>series_max\<close> is a natural number: it is the
  \<open>maxlen\<close> of every deque, which \<open>deque\<close> requires to be non-negative (the module
  builds its store with the defaults, 300 and 500). The lock is left out: the model is
  sequential, one call at a time. The clock readings \<open>time.time()\<close> are arguments of
  the operations.
\<close>

type_synonym LabelKey = "pystr \<times> pystr \<times> pystr"

record MetricsStore =
  st_counts :: "(LabelKey, int) alist"
  st_sum :: "(LabelKey, pyfloat) alist"
  st_n :: "(LabelKey, int) alist"
  st_min :: "(LabelKey, pyfloat) alist"
  st_max :: "(LabelKey, pyfloat) alist"
  st_series :: "(LabelKey, (pyfloat \<times> pyfloat) deque) alist"
  st_series_window :: pyfloat
  st_series_max :: nat

definition MetricsStore_init :: "pyfloat \<Rightarrow> nat \<Rightarrow> MetricsStore" where
  "MetricsStore_init series_window series_max =
     \<lparr>st_counts = DAList.empty, st_sum = DAList.empty, st_n = DAList.empty,
      st_min = DAList.empty, st_max = DAList.empty, st_series = DAList.empty,
      st_series_window = series_window, st_series_max = series_max\<rparr>"

definition label_key :: "pystr \<Rightarrow> pystr option \<Rightarrow> pystr option \<Rightarrow> LabelKey" where
  "label_key event service status = (event, or_empty service, or_empty status)"

definition track ::
  "MetricsStore \<Rightarrow> pystr \<Rightarrow> pyfloat option \<Rightarrow> pystr option \<Rightarrow> pystr option \<Rightarrow> pyfloat
     \<Rightarrow> MetricsStore" where
  "track self event value service status ts =
     (let key = label_key event service status;
          (c, counts_d) = getitem 0 (st_counts self) key;
          self = self\<lparr>st_counts := DAList.update key (c + 1) counts_d\<rparr>
      in case value of
           None \<Rightarrow> self
         | Some v \<Rightarrow>
            (let (sm, sum_d) = getitem (Fin 0) (st_sum self) key;
                 self = self\<lparr>st_sum := DAList.update key (fadd sm v) sum_d\<rparr>;
                 (n, n_d) = getitem 0 (st_n self) key;
                 self = self\<lparr>st_n := DAList.update key (n + 1) n_d\<rparr>;
                 (mn, min_d) = getitem PInf (st_min self) key;
                 self = self\<lparr>st_min := (if flt v mn then DAList.update key v min_d else min_d)\<rparr>;
                 (mx, max_d) = getitem NInf (st_max self) key;
                 self = self\<lparr>st_max := (if fgt v mx then DAList.update key v max_d else max_d)\<rparr>;
                 (dq, series_d) = getitem (new_deque (st_series_max self)) (st_series self) key
             in self\<lparr>st_series := DAList.update key (deque_append (ts, v) dq) series_d\<rparr>))"

text \<open>A row of \<open>snapshot()\<close>, the dict with the keys event, service, status, count,
  samples, avg, min and max; None is JSON null.\<close>

record row =
  r_event :: pystr
  r_service :: pystr
  r_status :: pystr
  r_count :: int
  r_samples :: int
  r_avg :: "pyfloat option"
  r_min :: "pyfloat option"
  r_max :: "pyfloat option"

text \<open>The body of the loop of \<open>snapshot\<close> for one item of \<open>_counts\<close>. The reads of
  \<open>_n\<close>, \<open>_min\<close> and \<open>_max\<close>, and of \<open>_sum\<close> when \<open>n\<close> is not zero, are defaultdict
  reads: they store the default for a key that is missing. \<open>_min\<close> and \<open>_max\<close> are read
  twice each; the second read finds the key. The division is under the guard \<open>if n\<close>,
  so \<open>avg\<close> is null exactly in the other branch (\<open>fdiv_int_guarded\<close>).\<close>

definition snapshot_row :: "LabelKey \<Rightarrow> int \<Rightarrow> MetricsStore \<Rightarrow> row \<times> MetricsStore" where
  "snapshot_row key count self =
     (let (n, n_d) = getitem 0 (st_n self) key;
          self = self\<lparr>st_n := n_d\<rparr>;
          (avg, self) =
            (if n \<noteq> 0
             then (let (sm, sum_d) = getitem (Fin 0) (st_sum self) key
                   in (fdiv_int sm n, self\<lparr>st_sum := sum_d\<rparr>))
             else (None, self));
          (mn, min_d) = getitem PInf (st_min self) key;
          self = self\<lparr>st_min := min_d\<rparr>;
          vmin = (if fne mn PInf then Some (fst (getitem PInf min_d key)) else None);
          (mx, max_d) = getitem NInf (st_max self) key;
          self = self\<lparr>st_max := max_d\<rparr>;
          vmax = (if fne mx NInf then Some (fst (getitem NInf max_d key)) else None)
      in (\<lparr>r_event = fst key, r_service = fst (snd key), r_status = snd (snd key),
           r_count = count, r_samples = n, r_avg = avg, r_min = vmin, r_max = vmax\<rparr>,
          self))"

fun snapshot_rows :: "(LabelKey \<times> int) list \<Rightarrow> MetricsStore \<Rightarrow> row list \<times> MetricsStore" where
  "snapshot_rows [] self = ([], self)"
| "snapshot_rows ((key, count) # kvs) self =
     (let (r, self) = snapshot_row key count self;
          (rs, self) = snapshot_rows kvs self
      in (r # rs, self))"

definition snapshot :: "MetricsStore \<Rightarrow> row list \<times> MetricsStore" where
  "snapshot self = snapshot_rows (DAList.impl_of (st_counts self)) self"

text \<open>An element of the lists of \<open>series()\<close>: the dict with the keys service, status and
  points. The result \<open>out\<close> is a dict from the event to such a list;
  \<open>out.setdefault(event, []).append(e)\<close> appends to the list of an event that is present
  and adds a new event at the end.\<close>

record series_entry =
  e_service :: pystr
  e_status :: pystr
  e_points :: "(pyfloat \<times> pyfloat) list"

definition setdefault_append ::
  "(pystr, series_entry list) alist \<Rightarrow> pystr \<Rightarrow> series_entry \<Rightarrow> (pystr, series_entry list) alist"
  where
  "setdefault_append out event e =
     (case DAList.lookup out event of
        None \<Rightarrow> DAList.update event [e] out
      | Some es \<Rightarrow> DAList.update event (es @ [e]) out)"

fun series_loop ::
  "pyfloat \<Rightarrow> (LabelKey \<times> (pyfloat \<times> pyfloat) deque) list \<Rightarrow> (pystr, series_entry list) alist
     \<Rightarrow> (pystr, series_entry list) alist" where
  "series_loop cutoff [] out = out"
| "series_loop cutoff ((key, dq) # kds) out =
     (let series = filter (\<lambda>(ts, v). fge ts cutoff) (items dq)
      in if series \<noteq> []
         then (case key of (event, service, status) \<Rightarrow>
                 series_loop cutoff kds
                   (setdefault_append out event
                      \<lparr>e_service = service, e_status = status, e_points = series\<rparr>))
         else series_loop cutoff kds out)"

text \<open>\<open>series()\<close>; \<open>now\<close> is the reading of \<open>time.time()\<close>.\<close>

definition series :: "MetricsStore \<Rightarrow> pyfloat \<Rightarrow> (pystr, series_entry list) alist" where
  "series self now =
     (let cutoff = fsub now (st_series_window self)
      in series_loop cutoff (DAList.impl_of (st_series self)) DAList.empty)"


section \<open>The HTTP boundary and the Prometheus sinks\<close>

text \<open>
  \<open>TrackPayload\<close> is the pydantic model of the body of \<open>POST /track\<close>. Its field
  validator replaces \<open>event\<close> by the stripped string and raises ValueError when nothing is
  left; the framework then answers with a client error and does not call the route.
  Only bodies whose fields have the declared types are modelled.
\<close>

datatype error = ValueError

record TrackPayload =
  payload_event :: pystr
  payload_value :: "pyfloat option"
  payload_service :: "pystr option"
  payload_status :: "pystr option"

definition validate_event :: "pystr \<Rightarrow> error + pystr" where
  "validate_event v = (let v = strip v in if v = [] then Inl ValueError else Inr v)"

definition TrackPayload_init ::
  "pystr \<Rightarrow> pyfloat option \<Rightarrow> pystr option \<Rightarrow> pystr option \<Rightarrow> error + TrackPayload" where
  "TrackPayload_init event value service status =
     (case validate_event event of
        Inl e \<Rightarrow> Inl e
      | Inr v \<Rightarrow> Inr \<lparr>payload_event = v, payload_value = value,
                      payload_service = service, payload_status = status\<rparr>)"

text \<open>
  The two collectors of \<open>prometheus_client\<close> are outside the repository. A labelled Counter
  is modelled by the number of \<open>inc()\<close> calls of each label tuple, a labelled Histogram by
  the list of the amounts passed to \<open>observe\<close> for each label tuple; \<open>labels(...)\<close> creates
  the child of a new label tuple.
\<close>

definition counter_inc :: "(LabelKey, int) alist \<Rightarrow> LabelKey \<Rightarrow> (LabelKey, int) alist" where
  "counter_inc c labels = (let (v, c) = getitem 0 c labels in DAList.update labels (v + 1) c)"

definition histogram_observe ::
  "(LabelKey, pyfloat list) alist \<Rightarrow> LabelKey \<Rightarrow> pyfloat \<Rightarrow> (LabelKey, pyfloat list) alist" where
  "histogram_observe h labels amount =
     (let (obs, h) = getitem [] h labels in DAList.update labels (obs @ [amount]) h)"

text \<open>The module state: the store \<open>STORE = MetricsStore()\<close> and the two collectors.\<close>

record app =
  STORE :: MetricsStore
  EVENT_COUNT :: "(LabelKey, int) alist"
  EVENT_LATENCY :: "(LabelKey, pyfloat list) alist"

definition app_init :: app where
  "app_init = \<lparr>STORE = MetricsStore_init (Fin 300) 500,
               EVENT_COUNT = DAList.empty, EVENT_LATENCY = DAList.empty\<rparr>"

text \<open>The route \<open>track(payload)\<close>; \<open>ts\<close> is the clock reading inside
  \<open>STORE.track\<close>. Its response is the constant \<open>{"ok": True}\<close>.\<close>

definition track_route :: "app \<Rightarrow> TrackPayload \<Rightarrow> pyfloat \<Rightarrow> app" where
  "track_route a payload ts =
     (let a = a\<lparr>STORE := track (STORE a) (payload_event payload) (payload_value payload)
                            (payload_service payload) (payload_status payload) ts\<rparr>;
          a = a\<lparr>EVENT_COUNT := counter_inc (EVENT_COUNT a)
                   (payload_event payload, or_empty (payload_service payload),
                    or_empty (payload_status payload))\<rparr>
      in case payload_value payload of
           None \<Rightarrow> a
         | Some v \<Rightarrow>
             a\<lparr>EVENT_LATENCY := histogram_observe (EVENT_LATENCY a)
                  (payload_event payload, or_empty (payload_service payload),
                   or_empty (payload_status payload)) v\<rparr>)"

text \<open>The requests that reach the store, and their responses. For the two JSON routes the
  response is the value handed to \<open>JSONResponse\<close>, without \<open>server_time\<close>.\<close>

datatype request =
    PostTrack pystr "pyfloat option" "pystr option" "pystr option" pyfloat
  | GetMetricsJson
  | GetSeriesJson pyfloat

datatype response =
    TrackOk
  | ClientError error
  | MetricsJson "row list"
  | SeriesJson "(pystr, series_entry list) alist"

fun handle :: "app \<Rightarrow> request \<Rightarrow> response \<times> app" where
  "handle a (PostTrack event value service status ts) =
     (case TrackPayload_init event value service status of
        Inl e \<Rightarrow> (ClientError e, a)
      | Inr payload \<Rightarrow> (TrackOk, track_route a payload ts))"
| "handle a GetMetricsJson =
     (let (rows, s) = snapshot (STORE a) in (MetricsJson rows, a\<lparr>STORE := s\<rparr>))"
| "handle a (GetSeriesJson now) = (SeriesJson (series (STORE a) now), a)"

definition serve :: "app \<Rightarrow> request list \<Rightarrow> app" where
  "serve a reqs = foldl (\<lambda>a r. snd (handle a r)) a reqs"

section \<open>Histories and observations\<close>

text \<open>The value that reading \<open>d[k]\<close> from a defaultdict returns.\<close>

definition dd_value :: "'v \<Rightarrow> ('k, 'v) alist \<Rightarrow> 'k \<Rightarrow> 'v" where
  "dd_value dflt d k = (case DAList.lookup d k of None \<Rightarrow> dflt | Some v \<Rightarrow> v)"

text \<open>The row that \<open>snapshot\<close> builds for a key, in terms of what the reads return.\<close>

definition row_of :: "MetricsStore \<Rightarrow> LabelKey \<Rightarrow> int \<Rightarrow> row" where
  "row_of s key count =
     (let n = dd_value 0 (st_n s) key;
          mn = dd_value PInf (st_min s) key;
          mx = dd_value NInf (st_max s) key
      in \<lparr>r_event = fst key, r_service = fst (snd key), r_status = snd (snd key),
          r_count = count, r_samples = n,
          r_avg = (if n \<noteq> 0 then fdiv_int (dd_value (Fin 0) (st_sum s) key) n else None),
          r_min = (if fne mn PInf then Some mn else None),
          r_max = (if fne mx NInf then Some mx else None)\<rparr>)"

text \<open>Two stores that differ at most in defaults stored by reads.\<close>

definition same_reads :: "MetricsStore \<Rightarrow> MetricsStore \<Rightarrow> bool" where
  "same_reads s s' \<longleftrightarrow>
     st_counts s' = st_counts s \<and> st_series s' = st_series s \<and>
     st_series_window s' = st_series_window s \<and> st_series_max s' = st_series_max s \<and>
     (\<forall>k. dd_value 0 (st_n s') k = dd_value 0 (st_n s) k) \<and>
     (\<forall>k. dd_value (Fin 0) (st_sum s') k = dd_value (Fin 0) (st_sum s) k) \<and>
     (\<forall>k. dd_value PInf (st_min s') k = dd_value PInf (st_min s) k) \<and>
     (\<forall>k. dd_value NInf (st_max s') k = dd_value NInf (st_max s) k)"

definition row_key :: "row \<Rightarrow> LabelKey" where
  "row_key r = (r_event r, r_service r, r_status r)"

definition rows_for :: "LabelKey \<Rightarrow> row list \<Rightarrow> row list" where
  "rows_for k rows = filter (\<lambda>r. row_key r = k) rows"

text \<open>A history of calls on one store: \<open>track\<close> with its arguments and its clock reading,
  \<open>snapshot()\<close>, and \<open>series()\<close> with its clock reading.\<close>

datatype op =
    Track pystr "pyfloat option" "pystr option" "pystr option" pyfloat
  | Snapshot
  | Series pyfloat

fun exec :: "MetricsStore \<Rightarrow> op \<Rightarrow> MetricsStore" where
  "exec s (Track event value service status ts) = track s event value service status ts"
| "exec s Snapshot = snd (snapshot s)"
| "exec s (Series now) = s"

definition run :: "MetricsStore \<Rightarrow> op list \<Rightarrow> MetricsStore" where
  "run s ops = foldl exec s ops"

fun is_read :: "op \<Rightarrow> bool" where
  "is_read (Track event value service status ts) = False"
| "is_read Snapshot = True"
| "is_read (Series now) = True"

text \<open>The \<open>track\<close> calls of a history for one key, as (clock reading, value); among them
  the points, those that supplied a value; and the supplied values.\<close>

fun calls_of :: "LabelKey \<Rightarrow> op \<Rightarrow> (pyfloat \<times> pyfloat option) list" where
  "calls_of k (Track event value service status ts) =
     (if label_key event service status = k then [(ts, value)] else [])"
| "calls_of k Snapshot = []"
| "calls_of k (Series now) = []"

definition calls_for :: "LabelKey \<Rightarrow> op list \<Rightarrow> (pyfloat \<times> pyfloat option) list" where
  "calls_for k ops = concat (map (calls_of k) ops)"

fun point_of :: "pyfloat \<times> pyfloat option \<Rightarrow> (pyfloat \<times> pyfloat) list" where
  "point_of (ts, None) = []"
| "point_of (ts, Some v) = [(ts, v)]"

definition points_for :: "LabelKey \<Rightarrow> op list \<Rightarrow> (pyfloat \<times> pyfloat) list" where
  "points_for k ops = concat (map point_of (calls_for k ops))"

definition values_for :: "LabelKey \<Rightarrow> op list \<Rightarrow> pyfloat list" where
  "values_for k ops = map snd (points_for k ops)"

fun tracked_key :: "op \<Rightarrow> LabelKey list" where
  "tracked_key (Track event value service status ts) = [label_key event service status]"
| "tracked_key Snapshot = []"
| "tracked_key (Series now) = []"

definition tracked_keys :: "op list \<Rightarrow> LabelKey list" where
  "tracked_keys ops = concat (map tracked_key ops)"

text \<open>The last \<open>m\<close> elements of a list.\<close>

definition last_n :: "nat \<Rightarrow> 'a list \<Rightarrow> 'a list" where
  "last_n m xs = drop (length xs - m) xs"

text \<open>The store calls that a request makes.\<close>

fun store_ops :: "request \<Rightarrow> op list" where
  "store_ops (PostTrack event value service status ts) =
     (if strip event = [] then [] else [Track (strip event) value service status ts])"
| "store_ops GetMetricsJson = [Snapshot]"
| "store_ops (GetSeriesJson now) = [Series now]"

text \<open>What \<open>series()\<close> holds for one key: the point lists of the entries of its event
  that carry its service and status.\<close>

definition in_window :: "MetricsStore \<Rightarrow> pyfloat \<Rightarrow> (pyfloat \<times> pyfloat) list \<Rightarrow> (pyfloat \<times> pyfloat) list"
  where
  "in_window s now pts = filter (\<lambda>(ts, v). fge ts (fsub now (st_series_window s))) pts"

definition entries_of :: "(pystr, series_entry list) alist \<Rightarrow> pystr \<Rightarrow> series_entry list" where
  "entries_of out event = (case DAList.lookup out event of None \<Rightarrow> [] | Some es \<Rightarrow> es)"

definition points_in ::
  "(pystr, series_entry list) alist \<Rightarrow> LabelKey \<Rightarrow> (pyfloat \<times> pyfloat) list list" where
  "points_in out key =
     map e_points
       (filter (\<lambda>e. e_service e = fst (snd key) \<and> e_status e = snd (snd key))
          (entries_of out (fst key)))"

text \<open>The entries that the loop of \<open>series()\<close> adds for one event: one for each key
  of the event, in stored order, whose points from the cutoff on are not empty.\<close>

definition window_entries ::
  "pyfloat \<Rightarrow> (LabelKey \<times> (pyfloat \<times> pyfloat) deque) list \<Rightarrow> pystr \<Rightarrow> series_entry list" where
  "window_entries cutoff kds event =
     concat (map (\<lambda>(key, dq).
        let pts = filter (\<lambda>(ts, v). fge ts cutoff) (items dq)
        in if pts \<noteq> [] \<and> fst key = event
           then [\<lparr>e_service = fst (snd key), e_status = snd (snd key), e_points = pts\<rparr>]
           else []) kds)"

section \<open>Reads and writes of the store\<close>

lemma fdiv_int_guarded: "n \<noteq> 0 \<Longrightarrow> \<exists>q. fdiv_int x n = Some q"
  by simp

lemma fst_getitem: "fst (getitem dflt d k) = dd_value dflt d k"
  by (simp add: getitem_def dd_value_def split: option.splits)

lemma lookup_snd_getitem:
  "DAList.lookup (snd (getitem dflt d k)) k' =
     (if k' = k then Some (dd_value dflt d k) else DAList.lookup d k')"
  by (simp add: getitem_def dd_value_def lookup_update split: option.splits)

lemma dd_value_snd_getitem:
  "dd_value dflt (snd (getitem dflt d k)) k' = dd_value dflt d k'"
  by (simp add: dd_value_def lookup_snd_getitem split: option.splits)

lemma dd_value_update:
  "dd_value dflt (DAList.update k v d) k' = (if k' = k then v else dd_value dflt d k')"
  by (simp add: dd_value_def lookup_update)

lemma update_snd_getitem:
  "DAList.update k v (snd (getitem dflt d k)) = DAList.update k v d"
  by (simp add: getitem_def split: option.splits)

lemmas track_simps = track_def Let_def case_prod_beta fst_getitem update_snd_getitem

lemma st_counts_track:
  "st_counts (track s event value service status ts) =
     DAList.update (label_key event service status)
       (dd_value 0 (st_counts s) (label_key event service status) + 1) (st_counts s)"
  by (simp add: track_simps split: option.splits)

lemma st_sum_track:
  "st_sum (track s event value service status ts) =
     (case value of None \<Rightarrow> st_sum s
      | Some v \<Rightarrow> DAList.update (label_key event service status)
          (fadd (dd_value (Fin 0) (st_sum s) (label_key event service status)) v) (st_sum s))"
  by (simp add: track_simps split: option.splits)

lemma st_n_track:
  "st_n (track s event value service status ts) =
     (case value of None \<Rightarrow> st_n s
      | Some v \<Rightarrow> DAList.update (label_key event service status)
          (dd_value 0 (st_n s) (label_key event service status) + 1) (st_n s))"
  by (simp add: track_simps split: option.splits)

lemma st_min_track:
  "st_min (track s event value service status ts) =
     (case value of None \<Rightarrow> st_min s
      | Some v \<Rightarrow>
         if flt v (dd_value PInf (st_min s) (label_key event service status))
         then DAList.update (label_key event service status) v (st_min s)
         else snd (getitem PInf (st_min s) (label_key event service status)))"
  by (simp add: track_simps split: option.splits)

lemma st_max_track:
  "st_max (track s event value service status ts) =
     (case value of None \<Rightarrow> st_max s
      | Some v \<Rightarrow>
         if fgt v (dd_value NInf (st_max s) (label_key event service status))
         then DAList.update (label_key event service status) v (st_max s)
         else snd (getitem NInf (st_max s) (label_key event service status)))"
  by (simp add: track_simps split: option.splits)

lemma st_series_track:
  "st_series (track s event value service status ts) =
     (case value of None \<Rightarrow> st_series s
      | Some v \<Rightarrow> DAList.update (label_key event service status)
          (deque_append (ts, v)
             (dd_value (new_deque (st_series_max s)) (st_series s) (label_key event service status)))
          (st_series s))"
  by (simp add: track_simps split: option.splits)

lemma st_conf_track:
  "st_series_max (track s event value service status ts) = st_series_max s"
  "st_series_window (track s event value service status ts) = st_series_window s"
  by (simp_all add: track_simps split: option.splits)

lemma same_reads_refl: "same_reads s s"
  by (simp add: same_reads_def)

lemma same_reads_trans: "same_reads s t \<Longrightarrow> same_reads t u \<Longrightarrow> same_reads s u"
  by (simp add: same_reads_def)

lemma same_reads_sym: "same_reads s t \<Longrightarrow> same_reads t s"
  by (simp add: same_reads_def)

lemma fst_snapshot_row: "fst (snapshot_row key count s) = row_of s key count"
  by (simp add: snapshot_row_def row_of_def Let_def case_prod_beta fst_getitem
        dd_value_snd_getitem)

lemma same_reads_snapshot_row: "same_reads s (snd (snapshot_row key count s))"
  by (simp add: snapshot_row_def same_reads_def Let_def case_prod_beta fst_getitem
        dd_value_snd_getitem)

lemma row_of_cong: "same_reads s s' \<Longrightarrow> row_of s' key count = row_of s key count"
  by (simp add: same_reads_def row_of_def Let_def del: split_paired_All)

lemma snapshot_rows_spec:
  "fst (snapshot_rows kvs s) = map (\<lambda>(k, c). row_of s k c) kvs \<and>
   same_reads s (snd (snapshot_rows kvs s))"
proof (induction kvs arbitrary: s)
  case Nil
  show ?case by (simp add: same_reads_refl)
next
  case (Cons kv kvs)
  obtain k c where kv: "kv = (k, c)" by (cases kv)
  let ?s1 = "snd (snapshot_row k c s)"
  have sr: "same_reads s ?s1" by (rule same_reads_snapshot_row)
  have rows: "fst (snapshot_rows kvs ?s1) = map (\<lambda>(k, c). row_of s k c) kvs"
    using Cons.IH [of ?s1] sr by (simp add: row_of_cong)
  have st: "same_reads s (snd (snapshot_rows kvs ?s1))"
    using Cons.IH [of ?s1] sr same_reads_trans by blast
  show ?case
    using rows st by (simp add: kv case_prod_beta fst_snapshot_row)
qed

lemma fst_snapshot:
  "fst (snapshot s) = map (\<lambda>(k, c). row_of s k c) (DAList.impl_of (st_counts s))"
  by (simp add: snapshot_def snapshot_rows_spec)

lemma same_reads_snapshot: "same_reads s (snd (snapshot s))"
  by (simp add: snapshot_def snapshot_rows_spec)

lemma fst_snapshot_cong: "same_reads s s' \<Longrightarrow> fst (snapshot s') = fst (snapshot s)"
  by (simp add: fst_snapshot row_of_cong) (simp add: same_reads_def)

lemma series_cong: "same_reads s s' \<Longrightarrow> series s' now = series s now"
  by (simp add: series_def same_reads_def)

lemma same_reads_track:
  assumes "same_reads s s'"
  shows "same_reads (track s event value service status ts)
                    (track s' event value service status ts)"
  using assms
  unfolding same_reads_def st_counts_track st_sum_track st_n_track st_min_track st_max_track
    st_series_track st_conf_track
  by (cases "value") (simp_all add: dd_value_update dd_value_snd_getitem del: split_paired_All)

lemma run_Nil: "run s [] = s"
  by (simp add: run_def)

lemma run_snoc: "run s (ops @ [x]) = exec (run s ops) x"
  by (simp add: run_def)

lemma calls_for_Nil: "calls_for k [] = []"
  by (simp add: calls_for_def)

lemma calls_for_snoc: "calls_for k (ops @ [x]) = calls_for k ops @ calls_of k x"
  by (simp add: calls_for_def)

lemma points_for_Nil: "points_for k [] = []"
  by (simp add: points_for_def calls_for_def)

lemma points_for_snoc:
  "points_for k (ops @ [x]) = points_for k ops @ concat (map point_of (calls_of k x))"
  by (simp add: points_for_def calls_for_snoc)

lemma run_conf:
  "st_series_max (run (MetricsStore_init w m) ops) = m \<and>
   st_series_window (run (MetricsStore_init w m) ops) = w"
proof (induction ops rule: rev_induct)
  case Nil
  show ?case by (simp add: run_Nil MetricsStore_init_def)
next
  case (snoc x ops)
  then show ?case
    using same_reads_snapshot [of "run (MetricsStore_init w m) ops"]
    by (cases x) (simp_all add: run_snoc st_conf_track same_reads_def)
qed

lemma run_counts:
  "DAList.lookup (st_counts (run (MetricsStore_init w m) ops)) k =
     (if calls_for k ops = [] then None else Some (int (length (calls_for k ops))))"
proof (induction ops rule: rev_induct)
  case Nil
  show ?case by (simp add: run_Nil MetricsStore_init_def calls_for_Nil)
next
  case (snoc x ops)
  let ?s = "run (MetricsStore_init w m) ops"
  show ?case
  proof (cases x)
    case (Track e v sv st ts)
    then show ?thesis
      using snoc
      by (simp add: run_snoc calls_for_snoc st_counts_track lookup_update dd_value_def)
  next
    case Snapshot
    then show ?thesis
      using snoc same_reads_snapshot [of ?s]
      by (simp add: run_snoc calls_for_snoc same_reads_def)
  next
    case (Series now)
    then show ?thesis
      using snoc by (simp add: run_snoc calls_for_snoc)
  qed
qed

lemma run_n:
  "dd_value 0 (st_n (run (MetricsStore_init w m) ops)) k = int (length (points_for k ops))"
proof (induction ops rule: rev_induct)
  case Nil
  show ?case by (simp add: run_Nil MetricsStore_init_def points_for_Nil dd_value_def)
next
  case (snoc x ops)
  let ?s = "run (MetricsStore_init w m) ops"
  show ?case
  proof (cases x)
    case (Track e v sv st ts)
    then show ?thesis
      using snoc
      by (cases v) (auto simp: run_snoc points_for_snoc st_n_track dd_value_update)
  next
    case Snapshot
    then show ?thesis
      using snoc same_reads_snapshot [of ?s]
      by (simp add: run_snoc points_for_snoc same_reads_def del: split_paired_All)
  next
    case (Series now)
    then show ?thesis
      using snoc by (simp add: run_snoc points_for_snoc)
  qed
qed

lemma row_key_row_of: "row_key (row_of s k c) = k"
  by (simp add: row_key_def row_of_def Let_def)

lemma rows_for_map_row_of:
  "distinct (map fst kvs) \<Longrightarrow>
   rows_for k (map (\<lambda>(k, c). row_of s k c) kvs) =
     (case map_of kvs k of None \<Rightarrow> [] | Some c \<Rightarrow> [row_of s k c])"
proof (induction kvs)
  case Nil
  show ?case by (simp add: rows_for_def)
next
  case (Cons kv kvs)
  obtain k' c' where kv: "kv = (k', c')" by (cases kv)
  have notin: "k' \<notin> fst ` set kvs" and IH:
    "rows_for k (map (\<lambda>(k, c). row_of s k c) kvs) =
       (case map_of kvs k of None \<Rightarrow> [] | Some c \<Rightarrow> [row_of s k c])"
    using Cons by (simp_all add: kv)
  show ?case
  proof (cases "k' = k")
    case True
    then have "map_of kvs k = None" using notin by (simp add: map_of_eq_None_iff)
    then show ?thesis using IH True by (simp add: kv rows_for_def row_key_row_of)
  next
    case False
    then show ?thesis using IH by (simp add: kv rows_for_def row_key_row_of)
  qed
qed

lemma rows_for_snapshot:
  "rows_for k (fst (snapshot s)) =
     (case DAList.lookup (st_counts s) k of None \<Rightarrow> [] | Some c \<Rightarrow> [row_of s k c])"
  by (simp add: fst_snapshot rows_for_map_row_of DAList.lookup.rep_eq)

text \<open>
  Claim C1. After any history of calls on a new store (\<open>track\<close> calls for any keys,
  with \<open>snapshot()\<close> and \<open>series()\<close> calls in between), \<open>snapshot()\<close> has no row for a
  key that was never tracked and exactly one row for a key that was; the \<open>count\<close> of that
  row is the number of \<open>track\<close> calls made for the key, and its \<open>samples\<close> is the number
  of those calls that supplied a value.
\<close>

theorem track_counts_exact:
  "map (\<lambda>r. (r_count r, r_samples r))
       (rows_for k (fst (snapshot (run (MetricsStore_init w m) ops)))) =
     (if calls_for k ops = [] then []
      else [(int (length (calls_for k ops)), int (length (points_for k ops)))])"
  by (simp add: rows_for_snapshot run_counts run_n row_of_def Let_def)

theorem track_counts_exact_witness:
  "map (\<lambda>r. (r_count r, r_samples r))
       (rows_for ([101], [], [])
          (fst (snapshot (run (MetricsStore_init (Fin 300) 500)
             [Track [101] (Some (Fin 3)) None None (Fin 1),
              Track [102] (Some (Fin 9)) None None (Fin 2),
              Snapshot,
              Track [101] None None (Some []) (Fin 3),
              Track [101] (Some (Fin 0)) None None (Fin 4)])))) = [(3, 2)]"
  using track_counts_exact [of "([101], [], [])" "Fin 300" 500
     "[Track [101] (Some (Fin 3)) None None (Fin 1),
       Track [102] (Some (Fin 9)) None None (Fin 2),
       Snapshot,
       Track [101] None None (Some []) (Fin 3),
       Track [101] (Some (Fin 0)) None None (Fin 4)]"]
  by (simp add: calls_for_def points_for_def label_key_def or_empty_def)

section \<open>Reads do not change what is read\<close>

lemma same_reads_exec: "is_read x \<Longrightarrow> same_reads s (exec s x)"
  by (cases x) (simp_all add: same_reads_snapshot same_reads_refl)

lemma same_reads_run: "list_all is_read rs \<Longrightarrow> same_reads s (run s rs)"
proof (induction rs rule: rev_induct)
  case Nil
  show ?case by (simp add: run_Nil same_reads_refl)
next
  case (snoc x rs)
  then have "same_reads s (run s rs)" and "same_reads (run s rs) (exec (run s rs) x)"
    by (simp_all add: same_reads_exec)
  then show ?case
    unfolding run_snoc by (rule same_reads_trans)
qed

text \<open>
  Claim C8. \<open>snapshot()\<close> stores defaults in the dictionaries it reads, and still:
  after any number of \<open>snapshot()\<close> and \<open>series()\<close> calls with no \<open>track\<close> call among
  them, \<open>snapshot()\<close> returns the same rows and \<open>series()\<close>, for the same clock reading,
  the same result as before; \<open>series()\<close> itself leaves the store as it is.
\<close>

theorem reads_idempotent:
  assumes "list_all is_read rs"
  shows "fst (snapshot (run s rs)) = fst (snapshot s) \<and>
         series (run s rs) now = series s now \<and>
         exec s (Series now) = s"
  using same_reads_run [OF assms] by (simp add: fst_snapshot_cong series_cong)

theorem reads_idempotent_witness:
  "list_all is_read [Snapshot, Series (Fin 40), Snapshot] \<and>
   fst (snapshot (run (track (track (MetricsStore_init (Fin 15) 500)
          [101] None None None (Fin 10)) [102] (Some (Fin 2)) None None (Fin 30))
        [Snapshot, Series (Fin 40), Snapshot])) =
     [\<lparr>r_event = [101], r_service = [], r_status = [], r_count = 1, r_samples = 0,
        r_avg = None, r_min = None, r_max = None\<rparr>,
      \<lparr>r_event = [102], r_service = [], r_status = [], r_count = 1, r_samples = 1,
        r_avg = Some (Fin 2), r_min = Some (Fin 2), r_max = Some (Fin 2)\<rparr>] \<and>
   DAList.impl_of (series (run (track (track (MetricsStore_init (Fin 15) 500)
          [101] None None None (Fin 10)) [102] (Some (Fin 2)) None None (Fin 30))
        [Snapshot, Series (Fin 40), Snapshot]) (Fin 40)) =
     [([102], [\<lparr>e_service = [], e_status = [], e_points = [(Fin 30, Fin 2)]\<rparr>])]"
proof -
  have rd: "list_all is_read [Snapshot, Series (Fin 40), Snapshot]"
    by simp
  have rows: "fst (snapshot (track (track (MetricsStore_init (Fin 15) 500)
          [101] None None None (Fin 10)) [102] (Some (Fin 2)) None None (Fin 30))) =
     [\<lparr>r_event = [101], r_service = [], r_status = [], r_count = 1, r_samples = 0,
        r_avg = None, r_min = None, r_max = None\<rparr>,
      \<lparr>r_event = [102], r_service = [], r_status = [], r_count = 1, r_samples = 1,
        r_avg = Some (Fin 2), r_min = Some (Fin 2), r_max = Some (Fin 2)\<rparr>]"
    by code_simp
  have ser: "DAList.impl_of (series (track (track (MetricsStore_init (Fin 15) 500)
          [101] None None None (Fin 10)) [102] (Some (Fin 2)) None None (Fin 30)) (Fin 40)) =
     [([102], [\<lparr>e_service = [], e_status = [], e_points = [(Fin 30, Fin 2)]\<rparr>])]"
    by code_simp
  show ?thesis
    using rd rows ser reads_idempotent [OF rd] by simp
qed

section \<open>Keys are kept apart\<close>

lemma lookup_track_other:
  assumes "k \<noteq> label_key event service status"
  shows "DAList.lookup (st_counts (track s event value service status ts)) k =
           DAList.lookup (st_counts s) k"
    and "DAList.lookup (st_sum (track s event value service status ts)) k =
           DAList.lookup (st_sum s) k"
    and "DAList.lookup (st_n (track s event value service status ts)) k =
           DAList.lookup (st_n s) k"
    and "DAList.lookup (st_min (track s event value service status ts)) k =
           DAList.lookup (st_min s) k"
    and "DAList.lookup (st_max (track s event value service status ts)) k =
           DAList.lookup (st_max s) k"
    and "DAList.lookup (st_series (track s event value service status ts)) k =
           DAList.lookup (st_series s) k"
  using assms
  by (simp_all add: st_counts_track st_sum_track st_n_track st_min_track st_max_track
        st_series_track lookup_update lookup_snd_getitem split: option.splits)

lemma row_of_track_other:
  "k \<noteq> label_key event service status \<Longrightarrow>
   row_of (track s event value service status ts) k c = row_of s k c"
  by (simp add: row_of_def dd_value_def Let_def lookup_track_other)

lemma rows_for_track_other:
  "k \<noteq> label_key event service status \<Longrightarrow>
   rows_for k (fst (snapshot (track s event value service status ts))) =
   rows_for k (fst (snapshot s))"
  by (simp add: rows_for_snapshot lookup_track_other row_of_track_other split: option.splits)

lemma map_row_key_snapshot:
  "map row_key (fst (snapshot s)) = map fst (DAList.impl_of (st_counts s))"
  by (simp add: fst_snapshot row_key_row_of case_prod_beta)

lemma tracked_keys_calls_for: "k \<in> set (tracked_keys ops) \<longleftrightarrow> calls_for k ops \<noteq> []"
proof (induction ops)
  case Nil
  show ?case by (simp add: tracked_keys_def calls_for_def)
next
  case (Cons x ops)
  then show ?case
    by (cases x) (auto simp: tracked_keys_def calls_for_def)
qed

lemma keys_run:
  "set (map fst (DAList.impl_of (st_counts (run (MetricsStore_init w m) ops)))) =
     set (tracked_keys ops)"
proof (rule set_eqI)
  fix k
  let ?d = "st_counts (run (MetricsStore_init w m) ops)"
  have "k \<in> set (map fst (DAList.impl_of ?d)) \<longleftrightarrow> DAList.lookup ?d k \<noteq> None"
    by (simp add: DAList.lookup.rep_eq map_of_eq_None_iff)
  also have "\<dots> \<longleftrightarrow> calls_for k ops \<noteq> []"
    by (simp add: run_counts)
  finally show "k \<in> set (map fst (DAList.impl_of ?d)) \<longleftrightarrow> k \<in> set (tracked_keys ops)"
    by (simp add: tracked_keys_calls_for)
qed

text \<open>
  Claim C6. In every store, a \<open>track\<close> call leaves the entry of every other key as it is
  in each of the six dictionaries (count, sum, sample count, min, max and series), and with
  it the row that \<open>snapshot()\<close> reports for that key. The rows of \<open>snapshot()\<close> carry
  pairwise distinct keys, and after a history of calls on a new store they are the keys
  that were tracked: one row for each distinct triple.
\<close>

theorem key_isolation:
  "(k \<noteq> label_key event service status \<longrightarrow>
      DAList.lookup (st_counts (track s event value service status ts)) k =
        DAList.lookup (st_counts s) k \<and>
      DAList.lookup (st_n (track s event value service status ts)) k =
        DAList.lookup (st_n s) k \<and>
      DAList.lookup (st_sum (track s event value service status ts)) k =
        DAList.lookup (st_sum s) k \<and>
      DAList.lookup (st_min (track s event value service status ts)) k =
        DAList.lookup (st_min s) k \<and>
      DAList.lookup (st_max (track s event value service status ts)) k =
        DAList.lookup (st_max s) k \<and>
      DAList.lookup (st_series (track s event value service status ts)) k =
        DAList.lookup (st_series s) k \<and>
      rows_for k (fst (snapshot (track s event value service status ts))) =
        rows_for k (fst (snapshot s))) \<and>
   distinct (map row_key (fst (snapshot s))) \<and>
   set (map row_key (fst (snapshot (run (MetricsStore_init w m) ops)))) =
     set (tracked_keys ops)"
  using keys_run [of w m ops]
  by (simp add: lookup_track_other rows_for_track_other map_row_key_snapshot)

theorem key_isolation_witness:
  "([102], [], []) \<noteq> label_key [101] None (Some [111, 107]) \<and>
   rows_for ([102], [], [])
     (fst (snapshot (track (track (MetricsStore_init (Fin 300) 500)
        [102] (Some (Fin 4)) None None (Fin 1)) [101] (Some (Fin 7)) None (Some [111, 107]) (Fin 2)))) =
     [\<lparr>r_event = [102], r_service = [], r_status = [], r_count = 1, r_samples = 1,
        r_avg = Some (Fin 4), r_min = Some (Fin 4), r_max = Some (Fin 4)\<rparr>] \<and>
   map row_key (fst (snapshot (run (MetricsStore_init (Fin 300) 500)
        [Track [102] (Some (Fin 4)) None None (Fin 1),
         Track [101] (Some (Fin 7)) None (Some [111, 107]) (Fin 2),
         Track [102] None (Some []) None (Fin 3)]))) =
     [([102], [], []), ([101], [], [111, 107])]"
proof -
  have ne: "([102], [], []) \<noteq> label_key [101] None (Some [111, 107])"
    by (simp add: label_key_def)
  have before: "rows_for ([102], [], [])
     (fst (snapshot (track (MetricsStore_init (Fin 300) 500)
        [102] (Some (Fin 4)) None None (Fin 1)))) =
     [\<lparr>r_event = [102], r_service = [], r_status = [], r_count = 1, r_samples = 1,
        r_avg = Some (Fin 4), r_min = Some (Fin 4), r_max = Some (Fin 4)\<rparr>]"
    by code_simp
  have keys: "map row_key (fst (snapshot (run (MetricsStore_init (Fin 300) 500)
        [Track [102] (Some (Fin 4)) None None (Fin 1),
         Track [101] (Some (Fin 7)) None (Some [111, 107]) (Fin 2),
         Track [102] None (Some []) None (Fin 3)]))) =
     [([102], [], []), ([101], [], [111, 107])]"
    by code_simp
  show ?thesis
    using ne before keys
      key_isolation [of "([102], [], [])" "[101]" None "Some [111, 107]"
        "track (MetricsStore_init (Fin 300) 500) [102] (Some (Fin 4)) None None (Fin 1)"
        "Some (Fin 7)" "Fin 2"]
    by simp
qed

section \<open>The bounded series\<close>

lemma last_n_Nil: "last_n m [] = []"
  by (simp add: last_n_def)

lemma length_last_n: "length (last_n m xs) = min m (length xs)"
  by (simp add: last_n_def)

lemma last_n_snoc:
  "(let ys = last_n m xs @ [x] in if m < length ys then tl ys else ys) = last_n m (xs @ [x])"
proof (cases "length xs < m")
  case True
  then show ?thesis by (simp add: last_n_def Let_def)
next
  case False
  then have le: "m \<le> length xs" by simp
  have len: "length (last_n m xs @ [x]) = Suc m"
    using le by (simp add: last_n_def)
  have "tl (last_n m xs @ [x]) = last_n m (xs @ [x])"
  proof (cases "m = 0")
    case True
    then show ?thesis by (simp add: last_n_def)
  next
    case False
    then have ne: "drop (length xs - m) xs \<noteq> []"
      using le by simp
    have "tl (drop (length xs - m) xs @ [x]) = tl (drop (length xs - m) xs) @ [x]"
      using ne by simp
    also have "\<dots> = drop (Suc (length xs - m)) xs @ [x]"
      by (simp add: drop_Suc tl_drop)
    also have "\<dots> = drop (Suc (length xs) - m) (xs @ [x])"
      using le False by (simp add: Suc_diff_le)
    finally show ?thesis by (simp add: last_n_def)
  qed
  then show ?thesis
    using len by (simp add: Let_def)
qed

lemma deque_append_last_n:
  "deque_append x \<lparr>maxlen = m, items = last_n m xs\<rparr> =
     \<lparr>maxlen = m, items = last_n m (xs @ [x])\<rparr>"
  using last_n_snoc [of m xs x] by (simp add: deque_append_def Let_def)

lemma run_series:
  "DAList.lookup (st_series (run (MetricsStore_init w m) ops)) k =
     (if points_for k ops = [] then None
      else Some \<lparr>maxlen = m, items = last_n m (points_for k ops)\<rparr>)"
proof (induction ops rule: rev_induct)
  case Nil
  show ?case by (simp add: run_Nil MetricsStore_init_def points_for_Nil)
next
  case (snoc x ops)
  let ?s = "run (MetricsStore_init w m) ops"
  have cap: "st_series_max ?s = m" by (simp add: run_conf)
  show ?case
  proof (cases x)
    case (Track e v sv st ts)
    show ?thesis
    proof (cases v)
      case None
      then show ?thesis
        using snoc Track by (simp add: run_snoc points_for_snoc st_series_track)
    next
      case (Some a)
      show ?thesis
      proof (cases "label_key e sv st = k")
        case False
        then show ?thesis
          using snoc Track Some
          by (simp add: run_snoc points_for_snoc st_series_track lookup_update)
      next
        case True
        have dq: "dd_value (new_deque m) (st_series ?s) k =
                    \<lparr>maxlen = m, items = last_n m (points_for k ops)\<rparr>"
          using snoc by (simp add: dd_value_def new_deque_def last_n_Nil)
        show ?thesis
          using Track Some True dq cap
          by (simp add: run_snoc points_for_snoc st_series_track lookup_update
                deque_append_last_n)
      qed
    qed
  next
    case Snapshot
    then show ?thesis
      using snoc same_reads_snapshot [of ?s]
      by (simp add: run_snoc points_for_snoc same_reads_def)
  next
    case (Series now)
    then show ?thesis
      using snoc by (simp add: run_snoc points_for_snoc)
  qed
qed

text \<open>
  Claim C3. In every state reached from a new store of capacity \<open>m\<close>, each series is
  a deque of that capacity holding the last \<open>m\<close> of the points tracked for its key, in the
  order they were tracked, so it never holds more than \<open>m\<close> points and the oldest points
  are the ones dropped. After \<open>m + 5\<close> values for a key, the series of the key is the
  tracked points without the first five, which are exactly \<open>m\<close> points. The store of the
  module has the default capacity, 500.
\<close>

theorem series_bounded:
  "(length (points_for k ops) = m + 5 \<longrightarrow>
      DAList.lookup (st_series (run (MetricsStore_init w m) ops)) k =
        Some \<lparr>maxlen = m, items = drop 5 (points_for k ops)\<rparr> \<and>
      length (drop 5 (points_for k ops)) = m) \<and>
   (\<forall>dq. DAList.lookup (st_series (run (MetricsStore_init w m) ops)) k = Some dq \<longrightarrow>
      maxlen dq = m \<and> length (items dq) \<le> m \<and>
      items dq = drop (length (points_for k ops) - m) (points_for k ops)) \<and>
   (DAList.lookup (st_series (run (MetricsStore_init w m) ops)) k = None \<longleftrightarrow>
      points_for k ops = []) \<and>
   st_series_max (STORE app_init) = 500"
proof -
  have cap: "st_series_max (STORE app_init) = 500"
    by (simp add: app_init_def MetricsStore_init_def)
  have "length (points_for k ops) = m + 5 \<Longrightarrow> points_for k ops \<noteq> []"
    by auto
  then show ?thesis
    unfolding cap
    by (auto simp: run_series length_last_n) (simp_all add: last_n_def)
qed

theorem series_bounded_witness:
  "length (points_for ([101], [], [])
      [Track [101] (Some (Fin 1)) None None (Fin 10),
       Track [101] (Some (Fin 2)) None None (Fin 20),
       Track [102] (Some (Fin 9)) None None (Fin 25),
       Track [101] (Some (Fin 3)) None None (Fin 30),
       Track [101] None None None (Fin 35),
       Track [101] (Some (Fin 4)) None None (Fin 40),
       Track [101] (Some (Fin 5)) None None (Fin 50),
       Track [101] (Some (Fin 6)) None None (Fin 60),
       Track [101] (Some (Fin 7)) None None (Fin 70)]) = 2 + 5 \<and>
   DAList.lookup (st_series (run (MetricsStore_init (Fin 300) 2)
      [Track [101] (Some (Fin 1)) None None (Fin 10),
       Track [101] (Some (Fin 2)) None None (Fin 20),
       Track [102] (Some (Fin 9)) None None (Fin 25),
       Track [101] (Some (Fin 3)) None None (Fin 30),
       Track [101] None None None (Fin 35),
       Track [101] (Some (Fin 4)) None None (Fin 40),
       Track [101] (Some (Fin 5)) None None (Fin 50),
       Track [101] (Some (Fin 6)) None None (Fin 60),
       Track [101] (Some (Fin 7)) None None (Fin 70)])) ([101], [], []) =
     Some \<lparr>maxlen = 2, items = [(Fin 60, Fin 6), (Fin 70, Fin 7)]\<rparr>"
proof -
  let ?ops = "[Track [101] (Some (Fin 1)) None None (Fin 10),
       Track [101] (Some (Fin 2)) None None (Fin 20),
       Track [102] (Some (Fin 9)) None None (Fin 25),
       Track [101] (Some (Fin 3)) None None (Fin 30),
       Track [101] None None None (Fin 35),
       Track [101] (Some (Fin 4)) None None (Fin 40),
       Track [101] (Some (Fin 5)) None None (Fin 50),
       Track [101] (Some (Fin 6)) None None (Fin 60),
       Track [101] (Some (Fin 7)) None None (Fin 70)]"
  have pts: "points_for ([101], [], []) ?ops =
      [(Fin 10, Fin 1), (Fin 20, Fin 2), (Fin 30, Fin 3), (Fin 40, Fin 4),
       (Fin 50, Fin 5), (Fin 60, Fin 6), (Fin 70, Fin 7)]"
    by (simp add: points_for_def calls_for_def label_key_def or_empty_def)
  have len: "length (points_for ([101], [], []) ?ops) = 2 + 5"
    by (simp add: pts)
  show ?thesis
    using len pts series_bounded [of "([101], [], [])" ?ops 2 "Fin 300"]
    by simp
qed

section \<open>The running statistics\<close>

lemma values_for_Nil: "values_for k [] = []"
  by (simp add: values_for_def points_for_Nil)

lemma values_for_snoc:
  "values_for k (ops @ [x]) = values_for k ops @ map snd (concat (map point_of (calls_of k x)))"
  by (simp add: values_for_def points_for_snoc)

lemma run_sum:
  "dd_value (Fin 0) (st_sum (run (MetricsStore_init w m) ops)) k =
     foldl fadd (Fin 0) (values_for k ops)"
proof (induction ops rule: rev_induct)
  case Nil
  show ?case by (simp add: run_Nil MetricsStore_init_def values_for_Nil dd_value_def)
next
  case (snoc x ops)
  let ?s = "run (MetricsStore_init w m) ops"
  show ?case
  proof (cases x)
    case (Track e v sv st ts)
    then show ?thesis
      using snoc
      by (cases v) (auto simp: run_snoc values_for_snoc st_sum_track dd_value_update)
  next
    case Snapshot
    then show ?thesis
      using snoc same_reads_snapshot [of ?s]
      by (simp add: run_snoc values_for_snoc same_reads_def del: split_paired_All)
  next
    case (Series now)
    then show ?thesis
      using snoc by (simp add: run_snoc values_for_snoc)
  qed
qed

lemma run_min:
  "dd_value PInf (st_min (run (MetricsStore_init w m) ops)) k =
     foldl (\<lambda>mn v. if flt v mn then v else mn) PInf (values_for k ops)"
proof (induction ops rule: rev_induct)
  case Nil
  show ?case by (simp add: run_Nil MetricsStore_init_def values_for_Nil dd_value_def)
next
  case (snoc x ops)
  let ?s = "run (MetricsStore_init w m) ops"
  show ?case
  proof (cases x)
    case (Track e v sv st ts)
    then show ?thesis
      using snoc
      by (cases v)
         (auto simp: run_snoc values_for_snoc st_min_track dd_value_update dd_value_snd_getitem)
  next
    case Snapshot
    then show ?thesis
      using snoc same_reads_snapshot [of ?s]
      by (simp add: run_snoc values_for_snoc same_reads_def del: split_paired_All)
  next
    case (Series now)
    then show ?thesis
      using snoc by (simp add: run_snoc values_for_snoc)
  qed
qed

lemma run_max:
  "dd_value NInf (st_max (run (MetricsStore_init w m) ops)) k =
     foldl (\<lambda>mx v. if fgt v mx then v else mx) NInf (values_for k ops)"
proof (induction ops rule: rev_induct)
  case Nil
  show ?case by (simp add: run_Nil MetricsStore_init_def values_for_Nil dd_value_def)
next
  case (snoc x ops)
  let ?s = "run (MetricsStore_init w m) ops"
  show ?case
  proof (cases x)
    case (Track e v sv st ts)
    then show ?thesis
      using snoc
      by (cases v)
         (auto simp: run_snoc values_for_snoc st_max_track dd_value_update dd_value_snd_getitem)
  next
    case Snapshot
    then show ?thesis
      using snoc same_reads_snapshot [of ?s]
      by (simp add: run_snoc values_for_snoc same_reads_def del: split_paired_All)
  next
    case (Series now)
    then show ?thesis
      using snoc by (simp add: run_snoc values_for_snoc)
  qed
qed

lemma length_values_for: "length (values_for k ops) = length (points_for k ops)"
  by (simp add: values_for_def)

text \<open>The three folds on finite values.\<close>

lemma foldl_fadd_Fin: "foldl fadd (Fin a) (map Fin rs) = Fin (a + sum_list rs)"
  by (induction rs arbitrary: a) (simp_all add: add.assoc)

lemma foldl_min_Fin:
  "foldl (\<lambda>mn v. if flt v mn then v else mn) (Fin a) (map Fin rs) = Fin (Min (set (a # rs)))"
proof -
  have "foldl (\<lambda>mn v. if flt v mn then v else mn) (Fin a) (map Fin rs) = Fin (fold min rs a)"
  proof (induction rs arbitrary: a)
    case Nil
    show ?case by simp
  next
    case (Cons r rs)
    show ?case using Cons [of r] Cons [of a] by (auto simp: min_def)
  qed
  then show ?thesis by (simp only: Min.set_eq_fold)
qed

lemma foldl_max_Fin:
  "foldl (\<lambda>mx v. if fgt v mx then v else mx) (Fin a) (map Fin rs) = Fin (Max (set (a # rs)))"
proof -
  have "foldl (\<lambda>mx v. if fgt v mx then v else mx) (Fin a) (map Fin rs) = Fin (fold max rs a)"
  proof (induction rs arbitrary: a)
    case Nil
    show ?case by simp
  next
    case (Cons r rs)
    show ?case using Cons [of r] Cons [of a] by (auto simp: max_def fgt_def)
  qed
  then show ?thesis by (simp only: Max.set_eq_fold)
qed

text \<open>
  For a key whose supplied values are all finite (and at least one), the row of
  \<open>snapshot()\<close> reports their minimum, their maximum and, in exact arithmetic, their sum
  divided by their number.
\<close>

lemma snapshot_stats_finite:
  assumes "values_for k ops = map Fin rs" and "rs \<noteq> []"
  shows "map (\<lambda>r. (r_samples r, r_avg r, r_min r, r_max r))
           (rows_for k (fst (snapshot (run (MetricsStore_init w m) ops)))) =
         [(int (length rs), Some (Fin (sum_list rs / real (length rs))),
           Some (Fin (Min (set rs))), Some (Fin (Max (set rs))))]"
proof -
  obtain r rs' where rs: "rs = r # rs'"
    using assms(2) by (cases rs) auto
  have len: "length (points_for k ops) = length rs"
    using assms(1) length_values_for [of k ops] by simp
  then have "points_for k ops \<noteq> []"
    using assms(2) by auto
  then have calls: "calls_for k ops \<noteq> []"
    by (auto simp: points_for_def)
  have mn: "foldl (\<lambda>mn v. if flt v mn then v else mn) PInf (map Fin rs) = Fin (Min (set rs))"
    using foldl_min_Fin [of r rs'] by (simp add: rs)
  have mx: "foldl (\<lambda>mx v. if fgt v mx then v else mx) NInf (map Fin rs) = Fin (Max (set rs))"
    using foldl_max_Fin [of r rs'] by (simp add: rs fgt_def)
  show ?thesis
    using calls len assms(2)
    by (simp add: rows_for_snapshot run_counts row_of_def Let_def run_n run_sum run_min run_max
          assms(1) mn mx foldl_fadd_Fin fne_def feq_def)
qed

lemma snapshot_stats_example:
  "map (\<lambda>r. (r_samples r, r_avg r, r_min r, r_max r))
     (fst (snapshot (run (MetricsStore_init (Fin 300) 500)
        [Track [101] (Some (Fin 3)) None None (Fin 10),
         Track [101] (Some (Fin 1)) None None (Fin 11),
         Track [101] (Some (Fin 5)) None None (Fin 12),
         Track [101] (Some (Fin 1)) None None (Fin 13)]))) =
     [(4, Some (Fin (5 / 2)), Some (Fin 1), Some (Fin 5))]"
  by code_simp

text \<open>When the rows report null: \<open>avg\<close> exactly for a key without samples, \<open>min\<close>
  exactly when no supplied value is below \<open>math.inf\<close>, \<open>max\<close> exactly when none is above
  \<open>-math.inf\<close>.\<close>

lemma flt_not_NaN: "flt v m \<Longrightarrow> v \<noteq> NaN \<and> v \<noteq> PInf \<and> m \<noteq> NaN \<and> m \<noteq> NInf"
  by (cases v; cases m) simp_all

lemma foldl_min_PInf:
  "m \<noteq> NaN \<Longrightarrow>
   fne (foldl (\<lambda>mn v. if flt v mn then v else mn) m vs) PInf \<longleftrightarrow>
     m \<noteq> PInf \<or> (\<exists>v \<in> set vs. flt v PInf)"
proof (induction vs arbitrary: m)
  case Nil
  then show ?case by (simp add: fne_def feq_def)
next
  case (Cons v vs)
  show ?case
  proof (cases "flt v m")
    case True
    then have "v \<noteq> NaN" "v \<noteq> PInf" "flt v PInf"
      using flt_not_NaN [of v m] by (cases v; simp)+
    then show ?thesis using Cons.IH [of v] True by auto
  next
    case False
    then have "m = PInf \<Longrightarrow> \<not> flt v PInf" by simp
    then show ?thesis using Cons.IH [of m] Cons.prems False by auto
  qed
qed

lemma foldl_max_NInf:
  "m \<noteq> NaN \<Longrightarrow>
   fne (foldl (\<lambda>mx v. if fgt v mx then v else mx) m vs) NInf \<longleftrightarrow>
     m \<noteq> NInf \<or> (\<exists>v \<in> set vs. fgt v NInf)"
proof (induction vs arbitrary: m)
  case Nil
  then show ?case by (simp add: fne_def feq_def)
next
  case (Cons v vs)
  show ?case
  proof (cases "fgt v m")
    case True
    then have "v \<noteq> NaN" "v \<noteq> NInf" "fgt v NInf"
      using flt_not_NaN [of m v] by (cases v; simp add: fgt_def)+
    then show ?thesis using Cons.IH [of v] True by auto
  next
    case False
    then have "m = NInf \<Longrightarrow> \<not> fgt v NInf" by simp
    then show ?thesis using Cons.IH [of m] Cons.prems False by auto
  qed
qed

lemma snapshot_null_iff:
  assumes "calls_for k ops \<noteq> []"
  shows "\<exists>r. rows_for k (fst (snapshot (run (MetricsStore_init w m) ops))) = [r] \<and>
           r_count r = int (length (calls_for k ops)) \<and>
           r_samples r = int (length (values_for k ops)) \<and>
           (r_avg r = None \<longleftrightarrow> values_for k ops = []) \<and>
           (r_min r = None \<longleftrightarrow> (\<forall>v \<in> set (values_for k ops). \<not> flt v PInf)) \<and>
           (r_max r = None \<longleftrightarrow> (\<forall>v \<in> set (values_for k ops). \<not> fgt v NInf))"
proof -
  have "points_for k ops = [] \<longleftrightarrow> values_for k ops = []"
    by (simp add: values_for_def)
  then show ?thesis
    using assms foldl_min_PInf [of PInf "values_for k ops"]
      foldl_max_NInf [of NInf "values_for k ops"]
    by (simp add: rows_for_snapshot run_counts row_of_def Let_def run_n run_sum run_min run_max
          length_values_for)
qed

lemma snapshot_never_valued:
  assumes "calls_for k ops \<noteq> []" and "values_for k ops = []"
  shows "map (\<lambda>r. (r_count r, r_samples r, r_avg r, r_min r, r_max r))
           (rows_for k (fst (snapshot (run (MetricsStore_init w m) ops)))) =
         [(int (length (calls_for k ops)), 0, None, None, None)]"
proof -
  have "points_for k ops = []"
    using assms(2) by (simp add: values_for_def)
  then show ?thesis
    using assms
    by (simp add: rows_for_snapshot run_counts row_of_def Let_def run_n run_min run_max
          fne_def feq_def)
qed

text \<open>
  Claim C2. The claim fails on the code for a key that is sent \<open>math.inf\<close>: the only
  supplied value is the minimum of the supplied values, and \<open>snapshot()\<close> reports \<open>min\<close>
  as null, next to \<open>samples = 1\<close>, \<open>avg = inf\<close> and \<open>max = inf\<close>. The comparison
  \<open>value < self._min[key]\<close> is false for the sentinel itself, and \<open>snapshot\<close> reads the
  sentinel as unset. For finite values the row is right (\<open>snapshot_stats_finite\<close>).
\<close>

theorem min_of_inf_is_null:
  "values_for ([101], [], []) [Track [101] (Some PInf) None None (Fin 10)] = [PInf] \<and>
   map (\<lambda>r. (r_count r, r_samples r, r_avg r, r_min r, r_max r))
     (fst (snapshot (track (MetricsStore_init (Fin 300) 500)
        [101] (Some PInf) None None (Fin 10)))) =
     [(1, 1, Some PInf, None, Some PInf)]"
  by code_simp

text \<open>
  Claim C5. The claim fails on the code in the same way, by the same sentinel test: a key
  that has received the value \<open>-math.inf\<close> has \<open>samples = 1\<close> and a non-null \<open>avg\<close>
  and \<open>min\<close>, and its \<open>max\<close> is still reported as null. A key that never received a
  value has all three null and \<open>samples = 0\<close> (\<open>snapshot_never_valued\<close>), and
  \<open>snapshot_null_iff\<close> states when each field is null.
\<close>

theorem max_null_after_value:
  "map (\<lambda>r. (r_count r, r_samples r, r_avg r, r_min r, r_max r))
     (fst (snapshot (track (track (MetricsStore_init (Fin 300) 500)
        [101] None None None (Fin 10)) [101] (Some NInf) None None (Fin 11)))) =
     [(2, 1, Some NInf, Some NInf, None)]"
  by code_simp

section \<open>Rounding to binary64\<close>

lemma binexp_bounds:
  assumes "r \<noteq> 0"
  shows "2 powi binexp r \<le> \<bar>r\<bar> \<and> \<bar>r\<bar> < 2 powi (binexp r + 1)"
proof (cases "1 \<le> \<bar>r\<bar>")
  case True
  define n where "n = \<lfloor>\<bar>r\<bar>\<rfloor>"
  have n1: "1 \<le> n" using True by (simp add: n_def le_floor_iff)
  then have bl: "1 \<le> bitlen n"
    by (simp add: bitlen_alt_def)
  have e: "binexp r = bitlen n - 1" using True by (simp add: binexp_def n_def)
  have lo: "2 ^ nat (bitlen n - 1) \<le> n" and hi: "n < 2 ^ nat (bitlen n)"
    using bitlen_bounds [of n] n1 by simp_all
  have "(2::real) powi (bitlen n - 1) = 2 ^ nat (bitlen n - 1)"
    using bl by (simp add: power_int_def)
  also have "\<dots> \<le> of_int n" using lo by (metis of_int_le_iff of_int_numeral of_int_power)
  also have "\<dots> \<le> \<bar>r\<bar>" by (simp add: n_def)
  finally have A: "2 powi binexp r \<le> \<bar>r\<bar>" by (simp add: e)
  have "n + 1 \<le> 2 ^ nat (bitlen n)" using hi by simp
  then have "of_int (n + 1) \<le> (2::real) ^ nat (bitlen n)"
    by (metis of_int_le_iff of_int_numeral of_int_power)
  moreover have "\<bar>r\<bar> < of_int (n + 1)" by (simp add: n_def)
  ultimately have "\<bar>r\<bar> < (2::real) ^ nat (bitlen n)" by linarith
  also have "\<dots> = 2 powi (binexp r + 1)"
    using bl by (simp add: e power_int_def)
  finally show ?thesis using A by simp
next
  case False
  define t where "t = 1 / \<bar>r\<bar>"
  define m where "m = \<lceil>t\<rceil>"
  define k where "k = bitlen (m - 1)"
  have r0: "0 < \<bar>r\<bar>" and r1: "\<bar>r\<bar> < 1" using assms False by simp_all
  have t1: "1 < t" using r0 r1 by (simp add: t_def)
  have m2: "1 \<le> m - 1" using t1 by (simp add: m_def less_ceiling_iff)
  then have k1: "1 \<le> k" by (simp add: k_def bitlen_alt_def)
  have e: "binexp r = - k" using False by (simp add: binexp_def k_def m_def t_def)
  have lo: "2 ^ nat (k - 1) \<le> m - 1" and hi: "m - 1 < 2 ^ nat k"
    using bitlen_bounds [of "m - 1"] m2 by (simp_all add: k_def)
  have "m \<le> 2 ^ nat k" using hi by simp
  then have "of_int m \<le> (2::real) ^ nat k"
    by (metis of_int_le_iff of_int_numeral of_int_power)
  moreover have "t \<le> of_int m" by (simp add: m_def)
  ultimately have tk: "t \<le> 2 ^ nat k" by linarith
  have "(2::real) ^ nat (k - 1) \<le> of_int (m - 1)"
    using lo by (metis of_int_le_iff of_int_numeral of_int_power)
  moreover have "of_int (m - 1) < t" unfolding m_def by linarith
  ultimately have tk1: "2 ^ nat (k - 1) < t" by linarith
  have pk: "(0::real) < 2 ^ nat k" and pk1: "(0::real) < 2 ^ nat (k - 1)" by simp_all
  have "1 / 2 ^ nat k \<le> \<bar>r\<bar>"
    using tk r0 pk by (simp add: t_def field_simps)
  moreover have "(2::real) powi (- k) = 1 / 2 ^ nat k"
    using k1 by (simp add: power_int_def field_simps)
  ultimately have A: "2 powi binexp r \<le> \<bar>r\<bar>" by (simp add: e)
  have "\<bar>r\<bar> < 1 / 2 ^ nat (k - 1)"
    using tk1 r0 pk1 by (simp add: t_def field_simps)
  moreover have "(2::real) powi (- k + 1) = 1 / 2 ^ nat (k - 1)"
  proof -
    have "- k + 1 = - (k - 1)" by simp
    then show ?thesis using k1 by (simp add: power_int_def field_simps)
  qed
  ultimately show ?thesis using A by (simp add: e)
qed

lemma round_half_even_nearest:
  "\<bar>of_int (round_half_even q) - q\<bar> \<le> 1 / 2 \<and>
   (\<bar>of_int (round_half_even q) - q\<bar> = 1 / 2 \<longrightarrow> even (round_half_even q))"
proof -
  have "of_int \<lfloor>q\<rfloor> \<le> q" and "q < of_int \<lfloor>q\<rfloor> + 1"
    by linarith+
  then show ?thesis
    by (auto simp: round_half_even_def Let_def)
qed

lemma round_half_even_of_int: "round_half_even (of_int n) = n"
  by (simp add: round_half_even_def)

lemma binexp_less:
  assumes "r \<noteq> 0" and "\<bar>r\<bar> < 2 powi k"
  shows "binexp r < k"
proof (rule ccontr)
  assume "\<not> binexp r < k"
  then have "(2::real) powi k \<le> 2 powi binexp r"
    by (simp add: power_int_increasing)
  then show False
    using binexp_bounds [OF assms(1)] assms(2) by linarith
qed

text \<open>Every binary64 number is a fixed point of \<open>round64\<close>: a number \<open>n * 2 ^ k\<close> with
  \<open>|n| < 2 ^ 53\<close>, \<open>k\<close> not below the exponent of the subnormal unit and a magnitude
  below \<open>2 ^ 1024\<close>.\<close>

lemma round64_representable:
  assumes n: "\<bar>n\<bar> < 2 ^ 53" and k: "- 1074 \<le> k"
    and r: "r = of_int n * 2 powi k" and big: "\<bar>r\<bar> < 2 powi 1024"
  shows "round64 r = Fin r"
proof (cases "r = 0")
  case True
  then show ?thesis by (simp add: round64_def)
next
  case False
  define e where "e = max (binexp r) (- 1022)"
  define j where "j = k - (e - 52)"
  have "\<bar>r\<bar> = of_int \<bar>n\<bar> * 2 powi k"
    by (simp add: r abs_mult)
  also have "\<dots> < 2 ^ 53 * 2 powi k"
  proof -
    have "real_of_int \<bar>n\<bar> < 2 ^ 53"
      using n by (metis of_int_less_iff of_int_numeral of_int_power)
    then show ?thesis by (simp add: mult_strict_right_mono)
  qed
  also have "\<dots> = 2 powi (k + 53)"
    by (simp add: power_int_add)
  finally have "binexp r < k + 53"
    using False by (rule_tac binexp_less)
  then have j0: "0 \<le> j"
    using k by (simp add: j_def e_def)
  have ulp: "(2::real) powi k = 2 ^ nat j * 2 powi (e - 52)"
  proof -
    have "k = j + (e - 52)" by (simp add: j_def)
    then have "(2::real) powi k = 2 powi j * 2 powi (e - 52)"
      by (metis power_int_add zero_neq_numeral)
    then show ?thesis using j0 by (simp add: power_int_def)
  qed
  have pos: "(2::real) powi (e - 52) \<noteq> 0" by simp
  have q: "r / 2 powi (e - 52) = of_int (n * 2 ^ nat j)"
    using pos by (simp add: r ulp)
  have y: "of_int (round_half_even (r / 2 powi (e - 52))) * 2 powi (e - 52) = r"
    unfolding q round_half_even_of_int by (simp add: r ulp)
  have "binexp r < 1024"
    using False big by (rule binexp_less)
  then show ?thesis
    using False y by (simp add: round64_def Let_def flip: e_def)
qed

section \<open>The windowed series\<close>

text \<open>The rounding decides the window at its edge. With the clock at 1700000000.5 and a
  window of 59.9 seconds (the binary64 number nearest to it), a point at 1699999940.6 (the
  binary64 number nearest to it) lies below the exact difference and is still returned:
  the difference rounds to the timestamp of the point.\<close>

lemma series_cutoff_is_rounded:
  "3565158275429171 / 2097152 < (3400000001 / 2 - 8430175552484147 / 140737488355328 :: real) \<and>
   fsub (Fin (3400000001 / 2)) (Fin (8430175552484147 / 140737488355328)) =
     Fin (3565158275429171 / 2097152) \<and>
   DAList.impl_of (series (track (MetricsStore_init (Fin (8430175552484147 / 140737488355328)) 500)
       [101] (Some (Fin 1)) None None (Fin (3565158275429171 / 2097152)))
     (Fin (3400000001 / 2))) =
     [([101], [\<lparr>e_service = [], e_status = [],
                e_points = [(Fin (3565158275429171 / 2097152), Fin 1)]\<rparr>])]"
proof -
  have "3565158275429171 / 2097152 <
          (3400000001 / 2 - 8430175552484147 / 140737488355328 :: real)"
    by simp
  moreover have "fsub (Fin (3400000001 / 2)) (Fin (8430175552484147 / 140737488355328)) =
     Fin (3565158275429171 / 2097152)"
    by code_simp
  moreover have "DAList.impl_of (series (track (MetricsStore_init (Fin (8430175552484147 / 140737488355328)) 500)
       [101] (Some (Fin 1)) None None (Fin (3565158275429171 / 2097152)))
     (Fin (3400000001 / 2))) =
     [([101], [\<lparr>e_service = [], e_status = [],
                e_points = [(Fin (3565158275429171 / 2097152), Fin 1)]\<rparr>])]"
    by code_simp
  ultimately show ?thesis by blast
qed

lemma entries_of_empty: "entries_of DAList.empty e = []"
  by (simp add: entries_of_def)

lemma entries_of_setdefault_append:
  "entries_of (setdefault_append out ev x) e =
     (if e = ev then entries_of out ev @ [x] else entries_of out e)"
  by (simp add: entries_of_def setdefault_append_def lookup_update split: option.splits)

lemma lookup_setdefault_append_nonempty:
  "DAList.lookup out e \<noteq> Some [] \<Longrightarrow> DAList.lookup (setdefault_append out ev x) e \<noteq> Some []"
  by (simp add: setdefault_append_def lookup_update split: option.splits)

lemma window_entries_Nil: "window_entries cutoff [] e = []"
  by (simp add: window_entries_def)

lemma window_entries_Cons:
  "window_entries cutoff ((key, dq) # kds) e =
     (let pts = filter (\<lambda>(ts, v). fge ts cutoff) (items dq)
      in if pts \<noteq> [] \<and> fst key = e
         then \<lparr>e_service = fst (snd key), e_status = snd (snd key), e_points = pts\<rparr>
              # window_entries cutoff kds e
         else window_entries cutoff kds e)"
  by (simp add: window_entries_def Let_def)

lemma entries_of_series_loop:
  "entries_of (series_loop cutoff kds out) e = entries_of out e @ window_entries cutoff kds e"
proof (induction kds arbitrary: out)
  case Nil
  show ?case by (simp add: window_entries_Nil)
next
  case (Cons kd kds)
  obtain ev sv st dq where kd: "kd = ((ev, sv, st), dq)"
    by (cases kd) auto
  show ?case
    by (simp add: kd Cons.IH window_entries_Cons entries_of_setdefault_append Let_def)
qed

lemma lookup_series_loop_nonempty:
  "DAList.lookup out e \<noteq> Some [] \<Longrightarrow> DAList.lookup (series_loop cutoff kds out) e \<noteq> Some []"
proof (induction kds arbitrary: out)
  case Nil
  then show ?case by simp
next
  case (Cons kd kds)
  obtain ev sv st dq where kd: "kd = ((ev, sv, st), dq)"
    by (cases kd) auto
  show ?case
    using Cons.prems
    by (auto simp: kd Let_def intro!: Cons.IH lookup_setdefault_append_nonempty)
qed

lemma entries_of_series:
  "entries_of (series s now) e =
     window_entries (fsub now (st_series_window s)) (DAList.impl_of (st_series s)) e"
  by (simp add: series_def Let_def entries_of_series_loop entries_of_empty)

lemma points_of_window_entries:
  "distinct (map fst kds) \<Longrightarrow>
   map e_points
     (filter (\<lambda>x. e_service x = fst (snd key) \<and> e_status x = snd (snd key))
        (window_entries cutoff kds (fst key))) =
   (case map_of kds key of
      None \<Rightarrow> []
    | Some dq \<Rightarrow>
        (let pts = filter (\<lambda>(ts, v). fge ts cutoff) (items dq)
         in if pts = [] then [] else [pts]))"
proof (induction kds)
  case Nil
  show ?case by (simp add: window_entries_Nil)
next
  case (Cons kd kds)
  obtain k' dq' where kd: "kd = (k', dq')" by (cases kd)
  have notin: "k' \<notin> fst ` set kds" and dist: "distinct (map fst kds)"
    using Cons.prems by (simp_all add: kd)
  note IH = Cons.IH [OF dist]
  show ?case
  proof (cases "k' = key")
    case True
    then have "map_of kds key = None"
      using notin by (simp add: map_of_eq_None_iff)
    then show ?thesis
      using IH True by (simp add: kd window_entries_Cons Let_def)
  next
    case False
    then have "\<not> (fst k' = fst key \<and> fst (snd k') = fst (snd key) \<and> snd (snd k') = snd (snd key))"
      by (auto simp: prod_eq_iff)
    then show ?thesis
      using IH False by (auto simp: kd window_entries_Cons Let_def)
  qed
qed

text \<open>
  Claim C4. For every store, window and clock reading, and every key: if the key has a
  series whose points with \<open>timestamp >= now - window\<close> are not empty, \<open>series()\<close> holds
  for it exactly one entry (under its event, with its service and status), and the points
  of that entry are those points, in stored order. A key with no such point, or with no
  series at all, has no entry, and no event is mapped to an empty list. The entries of an
  event follow the stored order of the keys. Here \<open>now - window\<close> is the difference of
  the two floats as the program computes it, rounded to binary64, and the comparison with
  a timestamp is exact, so a timestamp equal to the cutoff is inside the window.
\<close>

theorem windowed_series:
  "points_in (series s now) k =
     (case DAList.lookup (st_series s) k of
        None \<Rightarrow> []
      | Some dq \<Rightarrow>
          if in_window s now (items dq) = [] then [] else [in_window s now (items dq)]) \<and>
   DAList.lookup (series s now) e \<noteq> Some [] \<and>
   entries_of (series s now) e =
     window_entries (fsub now (st_series_window s)) (DAList.impl_of (st_series s)) e"
proof -
  have nonempty: "DAList.lookup (series s now) e \<noteq> Some []"
    by (simp add: series_def Let_def lookup_series_loop_nonempty)
  have "points_in (series s now) k =
     (case map_of (DAList.impl_of (st_series s)) k of
        None \<Rightarrow> []
      | Some dq \<Rightarrow>
          (let pts = filter (\<lambda>(ts, v). fge ts (fsub now (st_series_window s))) (items dq)
           in if pts = [] then [] else [pts]))"
    unfolding points_in_def entries_of_series
    by (rule points_of_window_entries) simp
  then have pts: "points_in (series s now) k =
     (case DAList.lookup (st_series s) k of
        None \<Rightarrow> []
      | Some dq \<Rightarrow>
          if in_window s now (items dq) = [] then [] else [in_window s now (items dq)])"
    by (simp add: DAList.lookup.rep_eq in_window_def Let_def split: option.splits)
  show ?thesis
    using nonempty pts entries_of_series by blast
qed

theorem windowed_series_witness:
  "DAList.impl_of (series (run (MetricsStore_init (Fin 15) 500)
      [Track [101] (Some (Fin 1)) None None (Fin 0),
       Track [102] (Some (Fin 7)) None None (Fin 5),
       Track [101] (Some (Fin 2)) None None (Fin 10),
       Track [101] (Some (Fin 8)) (Some [97]) None (Fin 15),
       Track [101] (Some (Fin 3)) None None (Fin 20),
       Track [101] (Some (Fin 4)) None None (Fin 30)]) (Fin 30)) =
     [([101], [\<lparr>e_service = [], e_status = [], e_points = [(Fin 20, Fin 3), (Fin 30, Fin 4)]\<rparr>,
               \<lparr>e_service = [97], e_status = [], e_points = [(Fin 15, Fin 8)]\<rparr>])] \<and>
   points_in (series (run (MetricsStore_init (Fin 15) 500)
      [Track [101] (Some (Fin 1)) None None (Fin 0),
       Track [102] (Some (Fin 7)) None None (Fin 5),
       Track [101] (Some (Fin 2)) None None (Fin 10),
       Track [101] (Some (Fin 8)) (Some [97]) None (Fin 15),
       Track [101] (Some (Fin 3)) None None (Fin 20),
       Track [101] (Some (Fin 4)) None None (Fin 30)]) (Fin 30)) ([101], [], []) =
     [[(Fin 20, Fin 3), (Fin 30, Fin 4)]]"
proof -
  let ?s = "run (MetricsStore_init (Fin 15) 500)
      [Track [101] (Some (Fin 1)) None None (Fin 0),
       Track [102] (Some (Fin 7)) None None (Fin 5),
       Track [101] (Some (Fin 2)) None None (Fin 10),
       Track [101] (Some (Fin 8)) (Some [97]) None (Fin 15),
       Track [101] (Some (Fin 3)) None None (Fin 20),
       Track [101] (Some (Fin 4)) None None (Fin 30)]"
  have out: "DAList.impl_of (series ?s (Fin 30)) =
     [([101], [\<lparr>e_service = [], e_status = [], e_points = [(Fin 20, Fin 3), (Fin 30, Fin 4)]\<rparr>,
               \<lparr>e_service = [97], e_status = [], e_points = [(Fin 15, Fin 8)]\<rparr>])]"
    by code_simp
  have stored: "DAList.lookup (st_series ?s) ([101], [], []) =
     Some \<lparr>maxlen = 500, items = [(Fin 0, Fin 1), (Fin 10, Fin 2), (Fin 20, Fin 3), (Fin 30, Fin 4)]\<rparr>"
    by code_simp
  have win: "in_window ?s (Fin 30) [(Fin 0, Fin 1), (Fin 10, Fin 2), (Fin 20, Fin 3), (Fin 30, Fin 4)] =
     [(Fin 20, Fin 3), (Fin 30, Fin 4)]"
    by code_simp
  show ?thesis
    using out stored win windowed_series [of ?s "Fin 30" "([101], [], [])" "[101]"]
    by simp
qed

section \<open>The route and its two sinks\<close>

lemma dropWhile_pad: "\<forall>x \<in> set xs. P x \<Longrightarrow> dropWhile P (xs @ ys) = dropWhile P ys"
  by (induction xs) auto

lemma dropWhile_all: "\<forall>x \<in> set xs. P x \<Longrightarrow> dropWhile P xs = []"
  by (induction xs) auto

lemma dropWhile_keep:
  "x \<in> set xs \<Longrightarrow> \<not> P x \<Longrightarrow> dropWhile P (xs @ ys) = dropWhile P xs @ ys"
  by (induction xs) auto

lemma strip_all_space: "list_all isspace v \<Longrightarrow> strip v = []"
  by (simp add: strip_def list_all_iff dropWhile_all)

lemma strip_pad:
  assumes "list_all isspace a" and "list_all isspace b"
  shows "strip (a @ c @ b) = strip c"
proof -
  have sa: "\<forall>x \<in> set a. isspace x" and sb: "\<forall>x \<in> set (rev b). isspace x"
    using assms by (simp_all add: list_all_iff)
  have a: "dropWhile isspace (a @ c @ b) = dropWhile isspace (c @ b)"
    using sa by (rule dropWhile_pad)
  have rb: "dropWhile isspace (rev b @ ys) = dropWhile isspace ys" for ys
    using sb by (rule dropWhile_pad)
  show ?thesis
  proof (cases "list_all isspace c")
    case True
    have "\<forall>x \<in> set (c @ b). isspace x"
      using True assms(2) by (auto simp: list_all_iff)
    then have cb: "dropWhile isspace (c @ b) = []"
      by (rule dropWhile_all)
    have "\<forall>x \<in> set c. isspace x"
      using True by (simp add: list_all_iff)
    then have c0: "dropWhile isspace c = []"
      by (rule dropWhile_all)
    show ?thesis by (simp add: strip_def a cb c0)
  next
    case False
    then obtain x where "x \<in> set c" and "\<not> isspace x"
      by (auto simp: list_all_iff)
    then have "dropWhile isspace (c @ b) = dropWhile isspace c @ b"
      by (rule dropWhile_keep)
    then show ?thesis by (simp add: strip_def a rb)
  qed
qed

lemma handle_rejected:
  "strip event = [] \<Longrightarrow>
   handle a (PostTrack event value service status ts) = (ClientError ValueError, a)"
  by (simp add: TrackPayload_init_def validate_event_def)

lemma handle_accepted:
  "strip event \<noteq> [] \<Longrightarrow>
   handle a (PostTrack event value service status ts) =
     (TrackOk,
      track_route a \<lparr>payload_event = strip event, payload_value = value,
                     payload_service = service, payload_status = status\<rparr> ts)"
  by (simp add: TrackPayload_init_def validate_event_def)

lemma counter_inc_eq:
  "counter_inc c k = DAList.update k (dd_value 0 c k + 1) c"
  by (simp add: counter_inc_def case_prod_beta fst_getitem update_snd_getitem)

lemma histogram_observe_eq:
  "histogram_observe h k v = DAList.update k (dd_value [] h k @ [v]) h"
  by (simp add: histogram_observe_def case_prod_beta fst_getitem update_snd_getitem)

lemma STORE_track_route:
  "STORE (track_route a p ts) =
     track (STORE a) (payload_event p) (payload_value p) (payload_service p) (payload_status p) ts"
  by (simp add: track_route_def Let_def split: option.splits)

lemma EVENT_COUNT_track_route:
  "EVENT_COUNT (track_route a p ts) =
     counter_inc (EVENT_COUNT a)
       (label_key (payload_event p) (payload_service p) (payload_status p))"
  by (simp add: track_route_def Let_def label_key_def split: option.splits)

lemma EVENT_LATENCY_track_route:
  "EVENT_LATENCY (track_route a p ts) =
     (case payload_value p of
        None \<Rightarrow> EVENT_LATENCY a
      | Some v \<Rightarrow> histogram_observe (EVENT_LATENCY a)
          (label_key (payload_event p) (payload_service p) (payload_status p)) v)"
  by (simp add: track_route_def Let_def label_key_def split: option.splits)

lemma run_append: "run s (xs @ ys) = run (run s xs) ys"
  by (simp add: run_def)

lemma STORE_handle: "STORE (snd (handle a r)) = run (STORE a) (store_ops r)"
proof (cases r)
  case (PostTrack e v sv st ts)
  then show ?thesis
    by (cases "strip e = []")
       (simp_all add: handle_rejected handle_accepted STORE_track_route run_def
          del: handle.simps)
next
  case GetMetricsJson
  then show ?thesis by (simp add: run_def case_prod_beta)
next
  case (GetSeriesJson now)
  then show ?thesis by (simp add: run_def)
qed

lemma serve_Nil: "serve a [] = a"
  by (simp add: serve_def)

lemma serve_snoc: "serve a (reqs @ [r]) = snd (handle (serve a reqs) r)"
  by (simp add: serve_def)

lemma STORE_serve: "STORE (serve a reqs) = run (STORE a) (concat (map store_ops reqs))"
proof (induction reqs rule: rev_induct)
  case Nil
  show ?case by (simp add: serve_Nil run_Nil)
next
  case (snoc r reqs)
  then show ?case by (simp add: serve_snoc STORE_handle run_append)
qed

lemma EVENT_COUNT_handle:
  "EVENT_COUNT a = st_counts (STORE a) \<Longrightarrow>
   EVENT_COUNT (snd (handle a r)) = st_counts (STORE (snd (handle a r)))"
proof (cases r)
  case (PostTrack e v sv st ts)
  assume "EVENT_COUNT a = st_counts (STORE a)"
  then show ?thesis
    by (cases "strip e = []")
       (simp_all add: PostTrack handle_rejected handle_accepted STORE_track_route
          EVENT_COUNT_track_route counter_inc_eq st_counts_track del: handle.simps)
next
  case GetMetricsJson
  assume "EVENT_COUNT a = st_counts (STORE a)"
  then show ?thesis
    using same_reads_snapshot [of "STORE a"]
    by (simp add: GetMetricsJson case_prod_beta same_reads_def)
next
  case (GetSeriesJson now)
  assume "EVENT_COUNT a = st_counts (STORE a)"
  then show ?thesis by (simp add: GetSeriesJson)
qed

lemma EVENT_COUNT_serve:
  "EVENT_COUNT (serve app_init reqs) = st_counts (STORE (serve app_init reqs))"
proof (induction reqs rule: rev_induct)
  case Nil
  show ?case by (simp add: serve_Nil app_init_def MetricsStore_init_def)
next
  case (snoc r reqs)
  then show ?case by (simp add: serve_snoc EVENT_COUNT_handle)
qed

lemma values_for_append:
  "values_for k (xs @ ys) = values_for k xs @ values_for k ys"
  by (simp add: values_for_def points_for_def calls_for_def)

lemma values_for_Track:
  "values_for k [Track e v sv st ts] =
     (case v of None \<Rightarrow> [] | Some x \<Rightarrow> if label_key e sv st = k then [x] else [])"
  by (simp add: values_for_def points_for_def calls_for_def split: option.splits)

lemma values_for_reads:
  "values_for k [Snapshot] = []" "values_for k [Series now] = []" "values_for k [] = []"
  by (simp_all add: values_for_def points_for_def calls_for_def)

lemma EVENT_LATENCY_serve:
  "DAList.lookup (EVENT_LATENCY (serve app_init reqs)) k =
     (if values_for k (concat (map store_ops reqs)) = [] then None
      else Some (values_for k (concat (map store_ops reqs))))"
proof (induction reqs rule: rev_induct)
  case Nil
  show ?case by (simp add: serve_Nil app_init_def values_for_reads)
next
  case (snoc r reqs)
  let ?a = "serve app_init reqs"
  show ?case
  proof (cases r)
    case (PostTrack e v sv st ts)
    show ?thesis
    proof (cases "strip e = []")
      case True
      then show ?thesis
        using snoc by (simp add: PostTrack serve_snoc handle_rejected del: handle.simps)
    next
      case False
      then show ?thesis
        using snoc
        by (cases v)
           (auto simp: PostTrack serve_snoc handle_accepted EVENT_LATENCY_track_route
              histogram_observe_eq lookup_update dd_value_def values_for_append
              values_for_Track simp del: handle.simps)
    qed
  next
    case GetMetricsJson
    then show ?thesis
      using snoc by (simp add: serve_snoc case_prod_beta values_for_append values_for_reads)
  next
    case (GetSeriesJson now)
    then show ?thesis
      using snoc by (simp add: serve_snoc values_for_append values_for_reads)
  qed
qed

text \<open>
  Claim C7. A \<open>POST /track\<close> whose event is empty or consists of whitespace only is
  answered with the client error of the validator, and the module state (the store and
  both collectors) is returned exactly as it was.
\<close>

theorem blank_event_rejected:
  assumes "list_all isspace event"
  shows "handle a (PostTrack event value service status ts) = (ClientError ValueError, a)"
  using assms by (simp add: handle_rejected strip_all_space del: handle.simps)

theorem blank_event_rejected_witness:
  "list_all isspace [32, 9, 10, 160] \<and>
   handle (serve app_init [PostTrack [101] (Some (Fin 1)) None None (Fin 5)])
     (PostTrack [32, 9, 10, 160] (Some (Fin 2)) (Some [97]) None (Fin 6)) =
     (ClientError ValueError, serve app_init [PostTrack [101] (Some (Fin 1)) None None (Fin 5)])"
proof -
  have ws: "list_all isspace [32, 9, 10, 160]"
    by (simp add: isspace_def)
  show ?thesis
    using ws blank_event_rejected [OF ws] by (simp del: handle.simps)
qed

text \<open>
  Claim C9. After any sequence of requests to a new module state (valid and rejected
  \<open>POST /track\<close> requests, with the two JSON reads in between), the counter holds the same
  dictionary as the counts of the store: the same label keys, in the same order, with the
  same numbers, which are the numbers of accepted \<open>track\<close> requests of each key. The
  histogram has observed, for each key, exactly the values supplied for that key, in order.
  Both use the key of the store: the stripped event, and service and status with None
  replaced by the empty string.
\<close>

theorem sinks_in_lockstep:
  "EVENT_COUNT (serve app_init reqs) = st_counts (STORE (serve app_init reqs)) \<and>
   DAList.lookup (EVENT_COUNT (serve app_init reqs)) k =
     (if calls_for k (concat (map store_ops reqs)) = [] then None
      else Some (int (length (calls_for k (concat (map store_ops reqs)))))) \<and>
   DAList.lookup (EVENT_LATENCY (serve app_init reqs)) k =
     (if values_for k (concat (map store_ops reqs)) = [] then None
      else Some (values_for k (concat (map store_ops reqs)))) \<and>
   STORE (serve app_init reqs) =
     run (MetricsStore_init (Fin 300) 500) (concat (map store_ops reqs))"
proof -
  have st: "STORE (serve app_init reqs) =
     run (MetricsStore_init (Fin 300) 500) (concat (map store_ops reqs))"
    by (simp add: STORE_serve app_init_def)
  have "DAList.lookup (EVENT_COUNT (serve app_init reqs)) k =
     (if calls_for k (concat (map store_ops reqs)) = [] then None
      else Some (int (length (calls_for k (concat (map store_ops reqs))))))"
    unfolding EVENT_COUNT_serve st by (rule run_counts)
  then show ?thesis
    using st EVENT_COUNT_serve [of reqs] EVENT_LATENCY_serve [of reqs k] by simp
qed

theorem sinks_in_lockstep_witness:
  "DAList.impl_of (EVENT_COUNT (serve app_init
      [PostTrack [32, 97, 32] (Some (Fin 1)) None None (Fin 10),
       PostTrack [97] None (Some []) None (Fin 11),
       PostTrack [32, 32] (Some (Fin 9)) None None (Fin 12),
       GetMetricsJson,
       PostTrack [97] (Some (Fin 3)) (Some [115]) None (Fin 13),
       PostTrack [97, 10] (Some (Fin 5)) None None (Fin 14)])) =
     [(([97], [], []), 3), (([97], [115], []), 1)] \<and>
   DAList.impl_of (st_counts (STORE (serve app_init
      [PostTrack [32, 97, 32] (Some (Fin 1)) None None (Fin 10),
       PostTrack [97] None (Some []) None (Fin 11),
       PostTrack [32, 32] (Some (Fin 9)) None None (Fin 12),
       GetMetricsJson,
       PostTrack [97] (Some (Fin 3)) (Some [115]) None (Fin 13),
       PostTrack [97, 10] (Some (Fin 5)) None None (Fin 14)]))) =
     [(([97], [], []), 3), (([97], [115], []), 1)] \<and>
   DAList.lookup (EVENT_LATENCY (serve app_init
      [PostTrack [32, 97, 32] (Some (Fin 1)) None None (Fin 10),
       PostTrack [97] None (Some []) None (Fin 11),
       PostTrack [32, 32] (Some (Fin 9)) None None (Fin 12),
       GetMetricsJson,
       PostTrack [97] (Some (Fin 3)) (Some [115]) None (Fin 13),
       PostTrack [97, 10] (Some (Fin 5)) None None (Fin 14)])) ([97], [], []) =
     Some [Fin 1, Fin 5]"
proof -
  let ?reqs = "[PostTrack [32, 97, 32] (Some (Fin 1)) None None (Fin 10),
       PostTrack [97] None (Some []) None (Fin 11),
       PostTrack [32, 32] (Some (Fin 9)) None None (Fin 12),
       GetMetricsJson,
       PostTrack [97] (Some (Fin 3)) (Some [115]) None (Fin 13),
       PostTrack [97, 10] (Some (Fin 5)) None None (Fin 14)]"
  let ?ops = "[Track [97] (Some (Fin 1)) None None (Fin 10),
       Track [97] None (Some []) None (Fin 11),
       Snapshot,
       Track [97] (Some (Fin 3)) (Some [115]) None (Fin 13),
       Track [97] (Some (Fin 5)) None None (Fin 14)]"
  have ops: "concat (map store_ops ?reqs) = ?ops"
    by (simp add: strip_def isspace_def)
  have cnt: "DAList.impl_of (st_counts (run (MetricsStore_init (Fin 300) 500) ?ops)) =
     [(([97], [], []), 3), (([97], [115], []), 1)]"
    by code_simp
  have vals: "values_for ([97], [], []) ?ops = [Fin 1, Fin 5]"
    by (simp add: values_for_def points_for_def calls_for_def label_key_def or_empty_def)
  show ?thesis
    using cnt vals sinks_in_lockstep [of ?reqs "([97], [], [])"]
    unfolding ops by simp
qed

text \<open>
  Claim C10. The key that an accepted \<open>POST /track\<close> uses, in the store and for the
  labels of both collectors, carries the stripped event. Two requests whose events are the
  same string with different whitespace around it, and with the same service and status,
  count for one key: in any module state the count of that key, in the store and in the
  counter, goes up by two and no other key changes; from a new module state
  \<open>snapshot()\<close> then has one row, for the stripped event, with count 2.
\<close>

theorem event_is_stripped:
  assumes "list_all isspace (a1 @ b1 @ a2 @ b2)" and "strip c \<noteq> []"
  shows "DAList.lookup (st_counts (STORE (serve a
             [PostTrack (a1 @ c @ b1) v1 sv st ts1, PostTrack (a2 @ c @ b2) v2 sv st ts2])))
           (strip c, or_empty sv, or_empty st) =
           Some (dd_value 0 (st_counts (STORE a)) (strip c, or_empty sv, or_empty st) + 2) \<and>
         DAList.lookup (EVENT_COUNT (serve a
             [PostTrack (a1 @ c @ b1) v1 sv st ts1, PostTrack (a2 @ c @ b2) v2 sv st ts2]))
           (strip c, or_empty sv, or_empty st) =
           Some (dd_value 0 (EVENT_COUNT a) (strip c, or_empty sv, or_empty st) + 2) \<and>
         (k \<noteq> (strip c, or_empty sv, or_empty st) \<longrightarrow>
            DAList.lookup (st_counts (STORE (serve a
               [PostTrack (a1 @ c @ b1) v1 sv st ts1, PostTrack (a2 @ c @ b2) v2 sv st ts2]))) k =
              DAList.lookup (st_counts (STORE a)) k \<and>
            DAList.lookup (EVENT_COUNT (serve a
               [PostTrack (a1 @ c @ b1) v1 sv st ts1, PostTrack (a2 @ c @ b2) v2 sv st ts2])) k =
              DAList.lookup (EVENT_COUNT a) k) \<and>
         map (\<lambda>r. (r_event r, r_service r, r_status r, r_count r))
           (fst (snapshot (STORE (serve app_init
             [PostTrack (a1 @ c @ b1) v1 sv st ts1, PostTrack (a2 @ c @ b2) v2 sv st ts2])))) =
           [(strip c, or_empty sv, or_empty st, 2)]"
proof -
  have ws: "list_all isspace a1" "list_all isspace b1" "list_all isspace a2" "list_all isspace b2"
    using assms(1) by simp_all
  have s1: "strip (a1 @ c @ b1) = strip c" and s2: "strip (a2 @ c @ b2) = strip c"
    using ws by (simp_all add: strip_pad)
  let ?p1 = "\<lparr>payload_event = strip c, payload_value = v1,
               payload_service = sv, payload_status = st\<rparr>"
  let ?p2 = "\<lparr>payload_event = strip c, payload_value = v2,
               payload_service = sv, payload_status = st\<rparr>"
  have sv2: "serve a' [PostTrack (a1 @ c @ b1) v1 sv st ts1, PostTrack (a2 @ c @ b2) v2 sv st ts2] =
               track_route (track_route a' ?p1 ts1) ?p2 ts2" for a'
    using assms(2) by (simp add: serve_def handle_accepted s1 s2 del: handle.simps)
  have rows: "map (\<lambda>r. (r_event r, r_service r, r_status r, r_count r))
           (fst (snapshot (STORE (track_route (track_route app_init ?p1 ts1) ?p2 ts2)))) =
           [(strip c, or_empty sv, or_empty st, 2)]"
    by (simp add: fst_snapshot STORE_track_route st_counts_track app_init_def
          MetricsStore_init_def label_key_def dd_value_def lookup_update
          DAList.update.rep_eq DAList.empty.rep_eq row_of_def Let_def)
  show ?thesis
    unfolding sv2
    using rows
    by (simp add: STORE_track_route EVENT_COUNT_track_route counter_inc_eq st_counts_track
          label_key_def lookup_update dd_value_update)
qed

theorem event_is_stripped_witness:
  "list_all isspace ([32, 9] @ [] @ [] @ [10, 12288]) \<and> strip [97, 32, 98] \<noteq> [] \<and>
   map (\<lambda>r. (r_event r, r_service r, r_status r, r_count r))
     (fst (snapshot (STORE (serve app_init
        [PostTrack ([32, 9] @ [97, 32, 98] @ []) (Some (Fin 4)) None (Some [111]) (Fin 1),
         PostTrack ([] @ [97, 32, 98] @ [10, 12288]) None None (Some [111]) (Fin 2)])))) =
     [([97, 32, 98], [], [111], 2)]"
proof -
  have ws: "list_all isspace ([32, 9] @ [] @ [] @ [10, 12288])"
    by (simp add: isspace_def)
  have st: "strip [97, 32, 98] = [97, 32, 98]"
    by (simp add: strip_def isspace_def)
  have ne: "strip [97, 32, 98] \<noteq> []"
    by (simp add: st)
  have "map (\<lambda>r. (r_event r, r_service r, r_status r, r_count r))
     (fst (snapshot (STORE (serve app_init
        [PostTrack ([32, 9] @ [97, 32, 98] @ []) (Some (Fin 4)) None (Some [111]) (Fin 1),
         PostTrack ([] @ [97, 32, 98] @ [10, 12288]) None None (Some [111]) (Fin 2)])))) =
     [(strip [97, 32, 98], or_empty None, or_empty (Some [111]), 2)]"
    using event_is_stripped [OF ws ne, of app_init "Some (Fin 4)" None "Some [111]" "Fin 1"
        None "Fin 2" "([120], [], [])"]
    by blast
  then show ?thesis
    using ws ne by (simp add: st or_empty_def)
qed

end
